theory Spec2Isabelle
  imports Main "HOL-Library.Word"
begin

unbundle bit_operations_syntax

section \<open>Bytes\<close>

text \<open>
  The program works on C \<^verbatim>\<open>char\<close> buffers. A byte is an 8-bit word; every comparison the
  program makes on a plain \<^verbatim>\<open>char\<close> is between values below 128 or against them, where
  signed and unsigned \<^verbatim>\<open>char\<close> agree, and the formatting engine reads its input through
  an \<^verbatim>\<open>unsigned char\<close>.
\<close>

type_synonym byte = "8 word"

section \<open>The line counter (\<^verbatim>\<open>line_buf\<close>, \<^verbatim>\<open>next_line_num\<close>)\<close>

text \<open>
  \<^verbatim>\<open>line_buf\<close> is a 20 byte array: 18 digit positions (blank until used), a tab and the
  terminating NUL. The three pointers into it are kept as indices.
\<close>

definition LINE_COUNTER_BUF_LEN :: nat where
  "LINE_COUNTER_BUF_LEN = 20"

record line_counter =
  line_buf :: "byte list"
  line_num_print :: nat
  line_num_start :: nat
  line_num_end :: nat

definition initial_counter :: line_counter where
  "initial_counter =
     \<lparr>line_buf = replicate 17 0x20 @ [0x30, 0x09, 0x00],
      line_num_print = LINE_COUNTER_BUF_LEN - 8,
      line_num_start = LINE_COUNTER_BUF_LEN - 3,
      line_num_end = LINE_COUNTER_BUF_LEN - 3\<rparr>"

text \<open>
  The do-while loop of \<^verbatim>\<open>next_line_num\<close>. The result is the buffer and whether the
  function returned from inside the loop (a digit below \<^verbatim>\<open>'9'\<close> was incremented). The
  loop goes on while the decremented \<^verbatim>\<open>endp\<close> is still at or after \<^verbatim>\<open>line_num_start\<close>,
  that is while \<^verbatim>\<open>start < endp\<close> before the decrement.
\<close>

function carry_loop :: "byte list \<Rightarrow> nat \<Rightarrow> nat \<Rightarrow> byte list \<times> bool" where
  "carry_loop buf start endp =
     (if buf ! endp < 0x39 then (buf[endp := buf ! endp + 1], True)
      else if start < endp then carry_loop (buf[endp := 0x30]) start (endp - 1)
      else (buf[endp := 0x30], False))"
  by pat_completeness auto
termination
  by (relation "measure (\<lambda>(buf, start, endp). endp)") auto

declare carry_loop.simps [simp del]

definition next_line_num :: "line_counter \<Rightarrow> line_counter" where
  "next_line_num lc =
     (case carry_loop (line_buf lc) (line_num_start lc) (line_num_end lc) of
        (buf, True) \<Rightarrow> lc\<lparr>line_buf := buf\<rparr>
      | (buf, False) \<Rightarrow>
          (let lc1 = (if 0 < line_num_start lc
                      then lc\<lparr>line_buf := buf[line_num_start lc - 1 := 0x31],
                              line_num_start := line_num_start lc - 1\<rparr>
                      else lc\<lparr>line_buf := buf[0 := 0x3E]\<rparr>)
           in if line_num_start lc1 < line_num_print lc1
              then lc1\<lparr>line_num_print := line_num_print lc1 - 1\<rparr>
              else lc1))"

text \<open>
  What \<^verbatim>\<open>stpcpy (bpout, line_num_print)\<close> copies: the bytes of \<^verbatim>\<open>line_buf\<close> from
  \<^verbatim>\<open>line_num_print\<close> up to the terminating NUL.
\<close>

definition line_num_string :: "line_counter \<Rightarrow> byte list" where
  "line_num_string lc = takeWhile (\<lambda>b. b \<noteq> 0) (drop (line_num_print lc) (line_buf lc))"

section \<open>Substitution mode (\<^verbatim>\<open>char_size\<close>, \<^verbatim>\<open>simple_cat\<close>)\<close>

definition lowercase :: "byte list" where
  "lowercase =
     [0xc9, 0x90,  0x71, 0xff,  0xc9, 0x94,  0x70, 0xff,  0xc7, 0x9d,  0xc9, 0x9f,
      0xc6, 0x83,  0xc9, 0xa5,  0xc4, 0xb1,  0xc9, 0xbe,  0xca, 0x9e,  0xca, 0x83,
      0xc9, 0xaf,  0x75, 0xff,  0x6f, 0xff,  0x64, 0xff,  0x62, 0xff,  0xc9, 0xb9,
      0x73, 0xff,  0xca, 0x87,  0x6e, 0xff,  0xca, 0x8c,  0xca, 0x8d,  0x78, 0xff,
      0xca, 0x8e,  0x7a, 0xff]"

definition uppercase :: "byte list" where
  "uppercase =
     [0xe2, 0x88, 0x80, 0xff,  0xf0, 0x90, 0x90, 0x92,  0xe2, 0x86, 0x83, 0xff,
      0xe2, 0x97, 0x96, 0xff,  0xc6, 0x8e, 0xff, 0xff,  0xe2, 0x84, 0xb2, 0xff,
      0xe2, 0x85, 0x81, 0xff,  0x48, 0xff, 0xff, 0xff,  0x49, 0xff, 0xff, 0xff,
      0xc5, 0xbf, 0xff, 0xff,  0xe2, 0x8b, 0x8a, 0xff,  0xe2, 0x85, 0x82, 0xff,
      0x57, 0xff, 0xff, 0xff,  0xe1, 0xb4, 0x8e, 0xff,  0x4f, 0xff, 0xff, 0xff,
      0xd4, 0x80, 0xff, 0xff,  0xce, 0x8c, 0xff, 0xff,  0xe1, 0xb4, 0x9a, 0xff,
      0x53, 0xff, 0xff, 0xff,  0xe2, 0x8a, 0xa5, 0xff,  0xe2, 0x88, 0xa9, 0xff,
      0xe1, 0xb4, 0xa7, 0xff,  0x4d, 0xff, 0xff, 0xff,  0x58, 0xff, 0xff, 0xff,
      0xe2, 0x85, 0x84, 0xff,  0x5a, 0xff, 0xff, 0xff]"

text \<open>
  How the process can end other than by returning: \<^verbatim>\<open>die\<close> in \<^verbatim>\<open>char_size\<close>, and a read
  outside the block of memory a pointer points into, which C leaves undefined.
\<close>

datatype failure = Unexpected_UTF8 | Read_out_of_bounds

text \<open>\<^verbatim>\<open>char_size\<close>, applied to the byte \<^verbatim>\<open>*pchar\<close>.\<close>

definition char_size :: "byte \<Rightarrow> failure + nat" where
  "char_size b =
     (if b AND 0x80 = 0 then Inr 1
      else if b AND 0xE0 = 0xC0 then Inr 2
      else if b AND 0xF0 = 0xE0 then Inr 3
      else if b AND 0xF8 = 0xF0 then Inr 4
      else Inl Unexpected_UTF8)"

text \<open>
  \<^verbatim>\<open>puc\<close> points into the read buffer (at the byte itself) or into one of the tables.
\<close>

datatype ptr = In_buf nat | In_uppercase nat | In_lowercase nat

definition select_puc :: "byte list \<Rightarrow> nat \<Rightarrow> ptr" where
  "select_puc buf i =
     (let c = buf ! i in
      if 0x41 \<le> c \<and> c \<le> 0x5A then In_uppercase (unat (c - 0x41) * 4)
      else if 0x61 \<le> c \<and> c \<le> 0x7A then In_lowercase (unat (c - 0x61) * 2)
      else In_buf i)"

text \<open>\<^verbatim>\<open>puc[j]\<close>: \<open>None\<close> when the index is outside the array pointed into.\<close>

fun deref :: "byte list \<Rightarrow> ptr \<Rightarrow> nat \<Rightarrow> byte option" where
  "deref buf (In_buf i) j = (if i + j < length buf then Some (buf ! (i + j)) else None)"
| "deref buf (In_uppercase k) j =
     (if k + j < length uppercase then Some (uppercase ! (k + j)) else None)"
| "deref buf (In_lowercase k) j =
     (if k + j < length lowercase then Some (lowercase ! (k + j)) else None)"

text \<open>
  \<^verbatim>\<open>char_size (puc)\<close> for the byte at index \<open>i\<close> of the block, as both passes compute it.
\<close>

definition char_size_at :: "byte list \<Rightarrow> nat \<Rightarrow> failure + nat" where
  "char_size_at buf i =
     (case deref buf (select_puc buf i) 0 of
        None \<Rightarrow> Inl Read_out_of_bounds
      | Some b \<Rightarrow> char_size b)"

text \<open>The first pass over a block: the loop that sums \<^verbatim>\<open>uclen\<close>, over the indices left.\<close>

fun uclen_loop :: "byte list \<Rightarrow> nat list \<Rightarrow> nat \<Rightarrow> failure + nat" where
  "uclen_loop buf [] uclen = Inr uclen"
| "uclen_loop buf (i # is) uclen =
     (case char_size_at buf i of
        Inl e \<Rightarrow> Inl e
      | Inr clen \<Rightarrow> uclen_loop buf is (uclen + clen))"

text \<open>
  The second pass: for every index, \<^verbatim>\<open>clen\<close> bytes are copied from \<^verbatim>\<open>puc\<close> to the end of
  \<^verbatim>\<open>unibuf\<close>.
\<close>

definition copied_bytes :: "byte list \<Rightarrow> nat \<Rightarrow> failure + byte list" where
  "copied_bytes buf i =
     (case char_size_at buf i of
        Inl e \<Rightarrow> Inl e
      | Inr clen \<Rightarrow>
          (case those (map (deref buf (select_puc buf i)) [0..<clen]) of
             None \<Rightarrow> Inl Read_out_of_bounds
           | Some bytes \<Rightarrow> Inr bytes))"

fun copy_loop :: "byte list \<Rightarrow> nat list \<Rightarrow> byte list \<Rightarrow> failure + byte list" where
  "copy_loop buf [] unibuf = Inr unibuf"
| "copy_loop buf (i # is) unibuf =
     (case copied_bytes buf i of
        Inl e \<Rightarrow> Inl e
      | Inr bytes \<Rightarrow> copy_loop buf is (unibuf @ bytes))"

text \<open>
  One block of \<^verbatim>\<open>simple_cat\<close>: \<open>buf\<close> is the memory of the read buffer (its length is
  what was allocated) after the read has stored \<open>n_read\<close> bytes at its start. The result
  is what \<^verbatim>\<open>full_write\<close> is given: \<^verbatim>\<open>uclen\<close> bytes of \<^verbatim>\<open>unibuf\<close>.
\<close>

definition convert_block :: "byte list \<Rightarrow> nat \<Rightarrow> failure + byte list" where
  "convert_block buf n_read =
     (case uclen_loop buf [0..<n_read] 0 of
        Inl e \<Rightarrow> Inl e
      | Inr uclen \<Rightarrow>
          (case copy_loop buf [0..<n_read] [] of
             Inl e \<Rightarrow> Inl e
           | Inr unibuf \<Rightarrow> Inr (take uclen unibuf)))"

text \<open>
  The environment: the results of the successive \<^verbatim>\<open>safe_read\<close> calls. The end of the list
  and an empty chunk are the end of the file (\<^verbatim>\<open>n_read == 0\<close>). \<^verbatim>\<open>safe_read\<close> returns at
  most the size it is asked for, so a chunk is never longer than that. Writes and
  allocations are taken to succeed (their failure ends the process through \<^verbatim>\<open>die\<close>).
\<close>

datatype read_result = Data "byte list" | Read_error

datatype outcome = Returned bool | Died failure

definition store_chunk :: "byte list \<Rightarrow> byte list \<Rightarrow> byte list" where
  "store_chunk c buf = c @ drop (length c) buf"

fun simple_cat ::
  "byte list \<Rightarrow> nat \<Rightarrow> read_result list \<Rightarrow> byte list list \<Rightarrow> outcome \<times> byte list list"
where
  "simple_cat buf bufsize [] out = (Returned True, out)"
| "simple_cat buf bufsize (Read_error # rs) out = (Returned False, out)"
| "simple_cat buf bufsize (Data c # rs) out =
     (if c = [] then (Returned True, out)
      else (case convert_block (store_chunk c buf) (length c) of
              Inl e \<Rightarrow> (Died e, out)
            | Inr block \<Rightarrow> simple_cat (store_chunk c buf) bufsize rs (out @ [block])))"

section \<open>Formatting mode (\<^verbatim>\<open>cat\<close>)\<close>

record options =
  show_nonprinting :: bool
  show_tabs :: bool
  number :: bool
  number_nonblank :: bool
  show_ends :: bool
  squeeze_blank :: bool

text \<open>
  The state of \<^verbatim>\<open>cat\<close>: the line counter, the local \<^verbatim>\<open>newlines\<close>, the bytes of the
  output buffer from \<^verbatim>\<open>outbuf\<close> up to \<^verbatim>\<open>bpout\<close>, and what \<^verbatim>\<open>full_write\<close> was given,
  one list per call. The output buffer is a list that grows as needed; \<open>peak\<close> records
  how many bytes from \<^verbatim>\<open>outbuf\<close> on have been stored into at most, so that the size
  of the allocation can be compared with it.
\<close>

record cat_state =
  counter :: line_counter
  newlines :: int
  outbuf :: "byte list"
  written :: "byte list list"
  peak :: nat

text \<open>\<^verbatim>\<open>*bpout++ = b\<close>, for each byte of \<open>bs\<close> in turn.\<close>

definition put :: "byte list \<Rightarrow> cat_state \<Rightarrow> cat_state" where
  "put bs s =
     s\<lparr>outbuf := outbuf s @ bs,
       peak := max (peak s) (length (outbuf s) + length bs)\<rparr>"

text \<open>
  \<^verbatim>\<open>next_line_num (); bpout = stpcpy (bpout, line_num_print);\<close> The copy stores the
  terminating NUL too, one byte past the new \<^verbatim>\<open>bpout\<close>.
\<close>

definition put_line_num :: "cat_state \<Rightarrow> cat_state" where
  "put_line_num s =
     (let lc = next_line_num (counter s); str = line_num_string lc in
      s\<lparr>counter := lc,
        outbuf := outbuf s @ str,
        peak := max (peak s) (length (outbuf s) + length str + 1)\<rparr>)"

text \<open>
  The write loop of the flush check: whole blocks of \<open>outsize\<close> bytes are written while
  at least \<open>outsize\<close> bytes remain; the result is the remaining bytes and the writes.
  (With \<open>outsize = 0\<close> the C loop never ends; \<open>cat\<close> below returns \<open>None\<close> then.)
\<close>

function write_blocks :: "nat \<Rightarrow> byte list \<Rightarrow> byte list list \<Rightarrow> byte list \<times> byte list list"
where
  "write_blocks outsize buf w =
     (if 0 < outsize \<and> outsize \<le> length (drop outsize buf)
      then write_blocks outsize (drop outsize buf) (w @ [take outsize buf])
      else (drop outsize buf, w @ [take outsize buf]))"
  by pat_completeness auto
termination
  by (relation "measure (\<lambda>(outsize, buf, w). length buf)") auto

declare write_blocks.simps [simp del]

text \<open>Write if there are at least \<open>outsize\<close> bytes in the output buffer.\<close>

definition flush_check :: "nat \<Rightarrow> cat_state \<Rightarrow> cat_state" where
  "flush_check outsize s =
     (if outsize \<le> length (outbuf s)
      then (case write_blocks outsize (outbuf s) (written s) of
              (remaining, w) \<Rightarrow> s\<lparr>outbuf := remaining, written := w\<rparr>)
      else s)"

definition write_pending :: "cat_state \<Rightarrow> cat_state" where
  "write_pending s =
     (if 0 < length (outbuf s)
      then s\<lparr>written := written s @ [outbuf s], outbuf := []\<rparr>
      else s)"

text \<open>
  A real newline has been read (the else branch of \<^verbatim>\<open>if (bpin > eob)\<close>). With
  \<open>squeeze_blank\<close> the second and later empty lines leave through \<^verbatim>\<open>continue\<close>, with
  nothing stored.
\<close>

definition real_newline :: "options \<Rightarrow> cat_state \<Rightarrow> cat_state" where
  "real_newline opts s =
     (let n = newlines s + 1;
          s1 = s\<lparr>newlines := (if 0 < n \<and> 2 \<le> n then 2 else n)\<rparr>
      in if 0 < n \<and> 2 \<le> n \<and> squeeze_blank opts then s1
         else
           (let s2 = (if 0 < n \<and> number opts \<and> \<not> number_nonblank opts
                      then put_line_num s1 else s1);
                s3 = (if show_ends opts then put [0x24] s2 else s2)
            in put [0x0A] s3))"

text \<open>
  The bytes stored for one byte other than newline by the loop under
  \<^verbatim>\<open>if (show_nonprinting)\<close>.
\<close>

definition quote_char :: "options \<Rightarrow> byte \<Rightarrow> byte list" where
  "quote_char opts ch =
     (if 32 \<le> ch then
        (if ch < 127 then [ch]
         else if ch = 127 then [0x5E, 0x3F]
         else [0x4D, 0x2D] @
           (if 128 + 32 \<le> ch then
              (if ch < 128 + 127 then [ch - 128] else [0x5E, 0x3F])
            else [0x5E, ch - 128 + 64]))
      else if ch = 0x09 \<and> \<not> show_tabs opts then [0x09]
      else [0x5E, ch + 64])"

text \<open>
  The bytes stored for one byte other than newline by the loop of the else branch;
  \<open>nxt\<close> is \<^verbatim>\<open>*bpin\<close>, the byte after it in the input buffer.
\<close>

definition plain_char :: "options \<Rightarrow> byte \<Rightarrow> byte \<Rightarrow> byte list" where
  "plain_char opts ch nxt =
     (if ch = 0x09 \<and> show_tabs opts then [0x5E, ch + 64]
      else if ch = 0x0D \<and> nxt = 0x0A \<and> show_ends opts then [0x5E, 0x4D]
      else [ch])"

text \<open>
  The input buffer between \<^verbatim>\<open>bpin\<close> and \<^verbatim>\<open>eob\<close> is the list \<open>rest\<close> of the bytes not
  yet read; the sentinel newline at \<^verbatim>\<open>*eob\<close> follows it. \<open>peek\<close> is \<^verbatim>\<open>*bpin\<close>.
\<close>

definition peek :: "byte list \<Rightarrow> byte" where
  "peek rest = (case rest of [] \<Rightarrow> 0x0A | c # cs \<Rightarrow> c)"

definition store_char :: "options \<Rightarrow> byte \<Rightarrow> byte list \<Rightarrow> cat_state \<Rightarrow> cat_state" where
  "store_char opts ch rest s =
     (if show_nonprinting opts then put (quote_char opts ch) s
      else put (plain_char opts ch (peek rest)) s)"

text \<open>
  The two loops over one chunk of input. \<open>fetch_line\<close> is the point
  \<^verbatim>\<open>ch = *bpin++; } while (ch == '\n');\<close> of the do-while loop: a real newline goes
  round the loop (flush check, then \<open>real_newline\<close>); any other byte leaves it, gets a
  line number when one is due, and enters the loop over the bytes of the line with
  \<open>ch\<close> in hand. Reading the sentinel ends the chunk: the state returned is the one at
  the top of the do-while loop with \<^verbatim>\<open>bpin > eob\<close>.
\<close>

function fetch_line :: "options \<Rightarrow> nat \<Rightarrow> byte list \<Rightarrow> cat_state \<Rightarrow> cat_state"
  and chars_loop :: "options \<Rightarrow> nat \<Rightarrow> byte \<Rightarrow> byte list \<Rightarrow> cat_state \<Rightarrow> cat_state"
where
  "fetch_line opts outsize [] s = s"
| "fetch_line opts outsize (c # cs) s =
     (if c = 0x0A
      then fetch_line opts outsize cs (real_newline opts (flush_check outsize s))
      else chars_loop opts outsize c cs
             (if 0 \<le> newlines s \<and> number opts then put_line_num s else s))"
| "chars_loop opts outsize ch rest s =
     (if ch = 0x0A
      then fetch_line opts outsize rest
             (real_newline opts (flush_check outsize (s\<lparr>newlines := - 1\<rparr>)))
      else (case rest of
              [] \<Rightarrow> (store_char opts ch rest s)\<lparr>newlines := - 1\<rparr>
            | c # cs \<Rightarrow> chars_loop opts outsize c cs (store_char opts ch rest s)))"
  by pat_completeness auto
termination
  by (relation "measure (\<lambda>x. case x of
          Inl (opts, outsize, rest, s) \<Rightarrow> 2 * length rest
        | Inr (opts, outsize, ch, rest, s) \<Rightarrow> 2 * length rest + 1)") auto

declare chars_loop.simps [simp del]

text \<open>
  What the \<^verbatim>\<open>FIONREAD\<close> ioctl answers before a read, and the read itself.
\<close>

datatype ioctl_result = Bytes_ready nat | Not_supported | Ioctl_error

type_synonym read_event = "ioctl_result \<times> read_result"

text \<open>
  The do-while loop at \<^verbatim>\<open>bpin > eob\<close>: flush check, the ioctl (while \<open>use_fionread\<close>),
  pending output written unless input is pending, and the read. The result is the
  return value of \<^verbatim>\<open>cat\<close> and the final state. After the ioctl has failed the function
  returns without writing what is pending.
\<close>

fun cat_loop :: "options \<Rightarrow> nat \<Rightarrow> bool \<Rightarrow> read_event list \<Rightarrow> cat_state \<Rightarrow> bool \<times> cat_state"
where
  "cat_loop opts outsize use_fionread [] s =
     (True, write_pending (write_pending (flush_check outsize s)))"
| "cat_loop opts outsize use_fionread ((io, rd) # evs) s =
     (let s1 = flush_check outsize s in
      if use_fionread \<and> io = Ioctl_error then (False, s1)
      else
        (let use_fionread' = (use_fionread \<and> io \<noteq> Not_supported);
             input_pending = (use_fionread' \<and> (case io of Bytes_ready n \<Rightarrow> n \<noteq> 0 | _ \<Rightarrow> False));
             s2 = (if input_pending then s1 else write_pending s1)
         in case rd of
              Read_error \<Rightarrow> (False, write_pending s2)
            | Data c \<Rightarrow>
                if c = [] then (True, write_pending s2)
                else cat_loop opts outsize use_fionread' evs (fetch_line opts outsize c s2)))"

text \<open>
  \<^verbatim>\<open>cat\<close>. The globals it reads and leaves behind are the line counter and
  \<^verbatim>\<open>newlines2\<close>. \<open>None\<close> stands for not returning: with \<open>outsize = 0\<close> the first flush
  check writes empty blocks for ever.
\<close>

record globals =
  the_counter :: line_counter
  newlines2 :: int

record cat_result =
  ok :: bool
  globals_after :: globals
  writes :: "byte list list"
  outbuf_peak :: nat

definition cat ::
  "nat \<Rightarrow> nat \<Rightarrow> options \<Rightarrow> globals \<Rightarrow> read_event list \<Rightarrow> cat_result option"
where
  "cat insize outsize opts g evs =
     (if outsize = 0 then None
      else (case cat_loop opts outsize True evs
                   \<lparr>counter = the_counter g, newlines = newlines2 g,
                    outbuf = [], written = [], peak = 0\<rparr> of
              (r, s) \<Rightarrow>
                Some \<lparr>ok = r,
                      globals_after = \<lparr>the_counter = counter s, newlines2 = newlines s\<rparr>,
                      writes = written s,
                      outbuf_peak = peak s\<rparr>))"

text \<open>The size \<^verbatim>\<open>main\<close> allocates for the output buffer, without the alignment slack.\<close>

definition outbuf_size :: "nat \<Rightarrow> nat \<Rightarrow> nat" where
  "outbuf_size insize outsize = outsize - 1 + insize * 4 + LINE_COUNTER_BUF_LEN"

text \<open>The state of the globals when the process starts.\<close>

definition initial_globals :: globals where
  "initial_globals = \<lparr>the_counter = initial_counter, newlines2 = 0\<rparr>"

section \<open>Definitions used in the statements\<close>

text \<open>
  What the substitution tables declare for a byte: the slot of a letter, the length
  \<^verbatim>\<open>char_size\<close> reads off the slot's first byte, and the bytes of the slot up to that
  length. A byte that is not a letter stands for itself.
\<close>

definition is_letter :: "byte \<Rightarrow> bool" where
  "is_letter c = ((0x41 \<le> c \<and> c \<le> 0x5A) \<or> (0x61 \<le> c \<and> c \<le> 0x7A))"

definition table_slot :: "byte \<Rightarrow> byte list" where
  "table_slot c =
     (if 0x41 \<le> c \<and> c \<le> 0x5A then take 4 (drop (4 * unat (c - 0x41)) uppercase)
      else take 2 (drop (2 * unat (c - 0x61)) lowercase))"

definition declared_length :: "byte \<Rightarrow> nat" where
  "declared_length c =
     (if is_letter c
      then (case char_size (hd (table_slot c)) of Inr n \<Rightarrow> n | Inl e \<Rightarrow> 0)
      else 1)"

definition replacement :: "byte \<Rightarrow> byte list" where
  "replacement c = (if is_letter c then take (declared_length c) (table_slot c) else [c])"

definition char_size_by_range :: "byte \<Rightarrow> failure + nat" where
  "char_size_by_range c =
     (if c < 0x80 then Inr 1 else if c < 0xC0 then Inl Unexpected_UTF8
      else if c < 0xE0 then Inr 2 else if c < 0xF0 then Inr 3
      else if c < 0xF8 then Inr 4 else Inl Unexpected_UTF8)"

text \<open>The bytes \<^verbatim>\<open>char_size\<close> rejects: 0x80 to 0xBF and 0xF8 to 0xFF.\<close>

definition invalid_lead :: "byte \<Rightarrow> bool" where
  "invalid_lead b = ((0x80 \<le> b \<and> b \<le> 0xBF) \<or> 0xF8 \<le> b)"

text \<open>
  The counter with all 18 digit positions at \<^verbatim>\<open>'9'\<close>, and the counter after the overflow:
  \<^verbatim>\<open>'>'\<close> in the leftmost position, 17 digits after it.
\<close>

definition saturated_counter :: line_counter where
  "saturated_counter =
     \<lparr>line_buf = replicate 18 0x39 @ [0x09, 0x00],
      line_num_print = 0, line_num_start = 0, line_num_end = 17\<rparr>"

definition overflowed_counter :: "byte list \<Rightarrow> line_counter" where
  "overflowed_counter digits =
     \<lparr>line_buf = 0x3E # digits @ [0x09, 0x00],
      line_num_print = 0, line_num_start = 0, line_num_end = 17\<rparr>"

text \<open>
  The decimal digits of a number as bytes, the last digit first; the line counter that
  shows a number; and the increment of a string of digits given last digit first, with
  whether it stayed within its length.
\<close>

definition digit :: "nat \<Rightarrow> byte" where
  "digit d = 0x30 + of_nat d"

fun rdigits :: "nat \<Rightarrow> byte list" where
  "rdigits n = digit (n mod 10) # (if n < 10 then [] else rdigits (n div 10))"

declare rdigits.simps [simp del]

definition counter_of :: "nat \<Rightarrow> line_counter" where
  "counter_of n =
     \<lparr>line_buf = replicate (18 - length (rdigits n)) 0x20 @ rev (rdigits n) @ [0x09, 0x00],
      line_num_print = min 12 (18 - length (rdigits n)),
      line_num_start = 18 - length (rdigits n),
      line_num_end = 17\<rparr>"

fun incr_rev :: "byte list \<Rightarrow> byte list \<times> bool" where
  "incr_rev [] = ([], False)"
| "incr_rev (d # ds) =
     (if d < 0x39 then ((d + 1) # ds, True)
      else (0x30 # fst (incr_rev ds), snd (incr_rev ds)))"


text \<open>
  The output stream of a state of \<^verbatim>\<open>cat\<close>: everything written so far, followed by what
  is pending in the output buffer. \<open>extends p s t\<close>: the two states agree on the line
  counter and on \<open>newlines\<close>, and the stream of \<open>s\<close> is \<open>p\<close> followed by the stream of \<open>t\<close>.
\<close>

definition stream :: "cat_state \<Rightarrow> byte list" where
  "stream s = concat (written s) @ outbuf s"

definition extends :: "byte list \<Rightarrow> cat_state \<Rightarrow> cat_state \<Rightarrow> bool" where
  "extends p s t = (counter s = counter t \<and> newlines s = newlines t \<and> stream s = p @ stream t)"

text \<open>
  Reads that deliver data: the ioctl does not fail, the read does not fail and is not
  at the end of the file. \<open>input_of\<close> is the input delivered, the chunks in order.
\<close>

fun chunk_of :: "read_event \<Rightarrow> byte list" where
  "chunk_of (io, Data c) = c"
| "chunk_of (io, Read_error) = []"

definition input_of :: "read_event list \<Rightarrow> byte list" where
  "input_of evs = concat (map chunk_of evs)"

definition clean_read :: "read_event \<Rightarrow> bool" where
  "clean_read ev = (fst ev \<noteq> Ioctl_error \<and> snd ev \<noteq> Read_error \<and> chunk_of ev \<noteq> [])"

text \<open>
  A chunk boundary that separates a carriage return, as the last byte of a chunk, from
  a following byte other than newline, under the options that make the engine look at
  the byte after a carriage return.
\<close>

definition splits_cr :: "options \<Rightarrow> byte list \<Rightarrow> byte list \<Rightarrow> bool" where
  "splits_cr opts c d =
     (show_ends opts \<and> \<not> show_nonprinting opts \<and> c \<noteq> [] \<and> last c = 0x0D \<and> d \<noteq> [] \<and> hd d \<noteq> 0x0A)"

fun boundaries_ok :: "options \<Rightarrow> byte list list \<Rightarrow> bool" where
  "boundaries_ok opts [] = True"
| "boundaries_ok opts [c] = True"
| "boundaries_ok opts (c # d # cs) = (\<not> splits_cr opts c d \<and> boundaries_ok opts (d # cs))"

text \<open>
  The state in which \<^verbatim>\<open>cat\<close> starts, and the state after the whole input has been
  scanned as a single chunk.
\<close>

definition entry_state :: "globals \<Rightarrow> cat_state" where
  "entry_state g =
     \<lparr>counter = the_counter g, newlines = newlines2 g, outbuf = [], written = [], peak = 0\<rparr>"

definition scan :: "options \<Rightarrow> globals \<Rightarrow> byte list \<Rightarrow> cat_state" where
  "scan opts g input = fetch_line opts 1 input (entry_state g)"

text \<open>
  What the engine stores for the bytes of a line (a list without newline), each byte
  seen with the byte after it; after the last one comes a newline, the line's own or
  the sentinel.
\<close>

fun render_line :: "options \<Rightarrow> byte list \<Rightarrow> byte list" where
  "render_line opts [] = []"
| "render_line opts (c # cs) =
     (if show_nonprinting opts then quote_char opts c else plain_char opts c (peek cs))
     @ render_line opts cs"

text \<open>The globals \<^verbatim>\<open>cat\<close> leaves behind when it returns from a state.\<close>

definition globals_of :: "cat_state \<Rightarrow> globals" where
  "globals_of s = \<lparr>the_counter = counter s, newlines2 = newlines s\<rparr>"

text \<open>No option set, and the single options used in the examples.\<close>

definition no_options :: options where
  "no_options =
     \<lparr>show_nonprinting = False, show_tabs = False, number = False,
      number_nonblank = False, show_ends = False, squeeze_blank = False\<rparr>"

text \<open>
  The rule of the \<^verbatim>\<open>M-\<close> notation in the words of the specification: the prefix, then
  the byte minus 128 as it is when that is in 32 to 126, \<^verbatim>\<open>^?\<close> when it is 127, and
  \<^verbatim>\<open>^\<close> with the byte minus 128 plus 64 otherwise.
\<close>

definition meta_notation :: "byte \<Rightarrow> byte list" where
  "meta_notation ch =
     [0x4D, 0x2D] @
     (if 32 \<le> ch - 128 \<and> ch - 128 \<le> 126 then [ch - 128]
      else if ch - 128 = 127 then [0x5E, 0x3F]
      else [0x5E, ch - 128 + 64])"

text \<open>Two runs of \<^verbatim>\<open>cat\<close> in succession, the second from the globals the first left.\<close>

definition cat_twice ::
  "nat \<Rightarrow> nat \<Rightarrow> options \<Rightarrow> globals \<Rightarrow> read_event list \<Rightarrow> read_event list
     \<Rightarrow> (cat_result \<times> cat_result) option"
where
  "cat_twice insize outsize opts g evs1 evs2 =
     (case cat insize outsize opts g evs1 of
        None \<Rightarrow> None
      | Some r1 \<Rightarrow>
          (case cat insize outsize opts (globals_after r1) evs2 of
             None \<Rightarrow> None
           | Some r2 \<Rightarrow> Some (r1, r2)))"

text \<open>All the output of a run, and of two runs.\<close>

definition output_of :: "cat_result option \<Rightarrow> byte list option" where
  "output_of r = map_option (\<lambda>r. concat (writes r)) r"

definition outputs_of :: "(cat_result \<times> cat_result) option \<Rightarrow> (byte list \<times> byte list) option" where
  "outputs_of rr = map_option (\<lambda>(r1, r2). (concat (writes r1), concat (writes r2))) rr"

text \<open>
  What the engine stores for one empty line at the start of the input: the line number
  when empty lines are numbered, the end marker when asked for, the newline.
\<close>

definition blank_line :: "options \<Rightarrow> globals \<Rightarrow> byte list" where
  "blank_line opts g =
     (if number opts \<and> \<not> number_nonblank opts
      then line_num_string (next_line_num (the_counter g)) else [])
     @ (if show_ends opts then [0x24] else []) @ [0x0A]"

text \<open>Two states with the same output buffer and the same writes.\<close>

definition same_buffers :: "cat_state \<Rightarrow> cat_state \<Rightarrow> bool" where
  "same_buffers s t = (outbuf s = outbuf t \<and> written s = written t)"

text \<open>
  The line number field of a number of one digit \<open>d\<close>: five blanks, the digit, the tab.
  The end of a line: the end marker when asked for, and the newline.
\<close>

definition number_field :: "byte \<Rightarrow> byte list" where
  "number_field d = [0x20, 0x20, 0x20, 0x20, 0x20, d, 0x09]"

definition line_end :: "options \<Rightarrow> byte list" where
  "line_end opts = (if show_ends opts then [0x24] else []) @ [0x0A]"

text \<open>The line counter after 9999999998 lines have been numbered.\<close>

definition counter_9999999998 :: line_counter where
  "counter_9999999998 =
     \<lparr>line_buf = replicate 8 0x20
                   @ [0x39, 0x39, 0x39, 0x39, 0x39, 0x39, 0x39, 0x39, 0x39, 0x38]
                   @ [0x09, 0x00],
      line_num_print = 8, line_num_start = 8, line_num_end = 17\<rparr>"

text \<open>The options of \<^verbatim>\<open>cat -vnE\<close>.\<close>

definition vnE :: options where
  "vnE = no_options\<lparr>show_nonprinting := True, number := True, show_ends := True\<rparr>"

text \<open>
  The switch over the option characters in \<^verbatim>\<open>main\<close>, from options that are all false.
  Any other character ends the process (usage, help or version): \<open>None\<close>.
\<close>

definition decode_option :: "char \<Rightarrow> options \<Rightarrow> options option" where
  "decode_option c opts =
     (if c = CHR ''b'' then Some (opts\<lparr>number := True, number_nonblank := True\<rparr>)
      else if c = CHR ''e'' then Some (opts\<lparr>show_ends := True, show_nonprinting := True\<rparr>)
      else if c = CHR ''n'' then Some (opts\<lparr>number := True\<rparr>)
      else if c = CHR ''s'' then Some (opts\<lparr>squeeze_blank := True\<rparr>)
      else if c = CHR ''t'' then Some (opts\<lparr>show_tabs := True, show_nonprinting := True\<rparr>)
      else if c = CHR ''u'' then Some opts
      else if c = CHR ''v'' then Some (opts\<lparr>show_nonprinting := True\<rparr>)
      else if c = CHR ''A''
        then Some (opts\<lparr>show_nonprinting := True, show_ends := True, show_tabs := True\<rparr>)
      else if c = CHR ''E'' then Some (opts\<lparr>show_ends := True\<rparr>)
      else if c = CHR ''T'' then Some (opts\<lparr>show_tabs := True\<rparr>)
      else None)"

fun parse_options :: "string \<Rightarrow> options \<Rightarrow> options option" where
  "parse_options [] opts = Some opts"
| "parse_options (c # cs) opts =
     (case decode_option c opts of
        None \<Rightarrow> None
      | Some opts' \<Rightarrow> parse_options cs opts')"


section \<open>The line counter at its limit\<close>

lemma carry_loop_above:
  "endp < k \<Longrightarrow> fst (carry_loop buf start endp) ! k = buf ! k"
proof (induction buf start endp rule: carry_loop.induct)
  case (1 buf start endp)
  show ?case
  proof (cases "buf ! endp < 0x39")
    case True
    then show ?thesis using "1.prems" by (simp add: carry_loop.simps[of buf])
  next
    case False
    show ?thesis
    proof (cases "start < endp")
      case True
      have "fst (carry_loop (buf[endp := 0x30]) start (endp - 1)) ! k = (buf[endp := 0x30]) ! k"
        using "1.IH"[OF False True] "1.prems" by simp
      then show ?thesis using False True "1.prems" by (simp add: carry_loop.simps[of buf])
    next
      case F2: False
      then show ?thesis using False "1.prems" by (simp add: carry_loop.simps[of buf])
    qed
  qed
qed

lemma carry_loop_length: "length (fst (carry_loop buf start endp)) = length buf"
proof (induction buf start endp rule: carry_loop.induct)
  case (1 buf start endp)
  then show ?case by (simp add: carry_loop.simps[of buf])
qed

lemma carry_loop_changes:
  assumes "endp < length buf"
  shows "fst (carry_loop buf start endp) ! endp \<noteq> buf ! endp"
proof (cases "buf ! endp < 0x39")
  case True
  then show ?thesis using assms by (simp add: carry_loop.simps[of buf])
next
  case False
  then have ne: "buf ! endp \<noteq> 0x30" by auto
  show ?thesis
  proof (cases "start < endp")
    case True
    then have "endp - 1 < endp" by simp
    from carry_loop_above[OF this, of "buf[endp := 0x30]" start]
    show ?thesis using False True assms ne by (simp add: carry_loop.simps[of buf])
  next
    case F2: False
    then show ?thesis using False assms ne by (simp add: carry_loop.simps[of buf])
  qed
qed

lemma next_line_num_changes_last_digit:
  assumes "line_num_end lc < length (line_buf lc)" "line_num_start lc \<le> line_num_end lc"
    and "0 < line_num_end lc"
  shows "line_buf (next_line_num lc) ! line_num_end lc \<noteq> line_buf lc ! line_num_end lc"
proof -
  obtain buf r where c: "carry_loop (line_buf lc) (line_num_start lc) (line_num_end lc) = (buf, r)"
    by (cases "carry_loop (line_buf lc) (line_num_start lc) (line_num_end lc)")
  have ch: "buf ! line_num_end lc \<noteq> line_buf lc ! line_num_end lc"
    using carry_loop_changes[OF assms(1), of "line_num_start lc"] c by simp
  have len: "length buf = length (line_buf lc)"
    using carry_loop_length[of "line_buf lc" "line_num_start lc" "line_num_end lc"] c by simp
  show ?thesis
  proof (cases r)
    case True
    then show ?thesis using c ch by (simp add: next_line_num_def)
  next
    case False
    then show ?thesis using c ch assms len
      by (auto simp add: next_line_num_def Let_def nth_list_update)
  qed
qed

text \<open>
  C8, as the code has it. From the saturated field (all 18 digit positions \<^verbatim>\<open>'9'\<close>) the next
  increment sets every digit position to \<^verbatim>\<open>'0'\<close> and then stores \<^verbatim>\<open>'>'\<close> in the leftmost
  one: what is printed is \<^verbatim>\<open>'>'\<close>, 17 zeros and the tab, 19 bytes. The counter does not
  stop: the next increment counts on in the 17 positions that remain, from the 17 nines
  it comes back to the 17 zeros, and no increment of a counter whose last digit lies
  inside the buffer leaves the buffer as it was.
\<close>

theorem counter_overflow_marks_and_counts_on:
  "next_line_num saturated_counter = overflowed_counter (replicate 17 0x30)
   \<and> line_num_string (overflowed_counter (replicate 17 0x30)) = 0x3E # replicate 17 0x30 @ [0x09]
   \<and> next_line_num (overflowed_counter (replicate 17 0x30))
       = overflowed_counter (replicate 16 0x30 @ [0x31])
   \<and> next_line_num (overflowed_counter (replicate 17 0x39))
       = overflowed_counter (replicate 17 0x30)
   \<and> (\<forall>lc. 0 < line_num_end lc \<and> line_num_end lc < length (line_buf lc)
             \<and> line_num_start lc \<le> line_num_end lc
          \<longrightarrow> line_buf (next_line_num lc) \<noteq> line_buf lc)"
proof -
  have 1: "next_line_num saturated_counter = overflowed_counter (replicate 17 0x30)"
    by code_simp
  have 2: "line_num_string (overflowed_counter (replicate 17 0x30)) = 0x3E # replicate 17 0x30 @ [0x09]"
    by code_simp
  have 3: "next_line_num (overflowed_counter (replicate 17 0x30))
       = overflowed_counter (replicate 16 0x30 @ [0x31])"
    by code_simp
  have 4: "next_line_num (overflowed_counter (replicate 17 0x39))
       = overflowed_counter (replicate 17 0x30)"
    by code_simp
  have 5: "line_buf (next_line_num lc) \<noteq> line_buf lc"
    if "0 < line_num_end lc \<and> line_num_end lc < length (line_buf lc)
          \<and> line_num_start lc \<le> line_num_end lc" for lc
    using next_line_num_changes_last_digit[of lc] that by auto
  from 1 2 3 4 5 show ?thesis by blast
qed

theorem counter_overflow_marks_and_counts_on_witness:
  "0 < line_num_end (overflowed_counter (replicate 17 0x30))
   \<and> line_num_end (overflowed_counter (replicate 17 0x30))
       < length (line_buf (overflowed_counter (replicate 17 0x30)))
   \<and> line_num_start (overflowed_counter (replicate 17 0x30))
       \<le> line_num_end (overflowed_counter (replicate 17 0x30))
   \<and> line_buf (next_line_num (overflowed_counter (replicate 17 0x30)))
       \<noteq> line_buf (overflowed_counter (replicate 17 0x30))"
proof -
  have h: "0 < line_num_end (overflowed_counter (replicate 17 0x30))
   \<and> line_num_end (overflowed_counter (replicate 17 0x30))
       < length (line_buf (overflowed_counter (replicate 17 0x30)))
   \<and> line_num_start (overflowed_counter (replicate 17 0x30))
       \<le> line_num_end (overflowed_counter (replicate 17 0x30))"
    by (simp add: overflowed_counter_def)
  from counter_overflow_marks_and_counts_on
  have "\<forall>lc. 0 < line_num_end lc \<and> line_num_end lc < length (line_buf lc)
             \<and> line_num_start lc \<le> line_num_end lc
          \<longrightarrow> line_buf (next_line_num lc) \<noteq> line_buf lc"
    by (elim conjE)
  then have "line_buf (next_line_num (overflowed_counter (replicate 17 0x30)))
       \<noteq> line_buf (overflowed_counter (replicate 17 0x30))"
    using h by blast
  with h show ?thesis by blast
qed

text \<open>
  C8 as stated fails: after the increment of the saturated counter the printed field is
  not the single byte \<^verbatim>\<open>'>'\<close>, and a further increment changes the counter.
\<close>

theorem counter_overflow_freeze_counterexample:
  "line_num_string (next_line_num saturated_counter) \<noteq> [0x3E]
   \<and> next_line_num (next_line_num saturated_counter) \<noteq> next_line_num saturated_counter"
  by code_simp

subsection \<open>Counting in decimal\<close>

lemma length_incr_rev [simp]: "length (fst (incr_rev ds)) = length ds"
  by (induction ds) simp_all

lemma carry_loop_digits:
  assumes "ds \<noteq> []"
  shows "carry_loop (pre @ rev ds @ post) (length pre) (length pre + length ds - 1)
           = (pre @ rev (fst (incr_rev ds)) @ post, snd (incr_rev ds))"
  using assms
proof (induction ds arbitrary: post)
  case Nil
  then show ?case by simp
next
  case (Cons d ds)
  let ?buf = "pre @ rev (d # ds) @ post"
  let ?endp = "length pre + length (d # ds) - 1"
  have e: "?endp = length pre + length ds" by simp
  have at: "?buf ! ?endp = d" unfolding e by (simp add: nth_append)
  have upd: "?buf[?endp := x] = pre @ rev ds @ x # post" for x
    unfolding e by (simp add: list_update_append)
  show ?case
  proof (cases "d < 0x39")
    case True
    then show ?thesis
      by (subst carry_loop.simps) (simp only: at upd, simp)
  next
    case False
    show ?thesis
    proof (cases "ds = []")
      case True
      then show ?thesis using False
        by (subst carry_loop.simps) (simp only: at upd, simp)
    next
      case F2: False
      then have lt: "length pre < ?endp" by (cases ds) simp_all
      have "carry_loop ?buf (length pre) ?endp
          = carry_loop (pre @ rev ds @ 0x30 # post) (length pre) (?endp - 1)"
        using False lt by (subst carry_loop.simps) (simp only: at upd, simp)
      also have "?endp - 1 = length pre + length ds - 1" by simp
      also have "carry_loop (pre @ rev ds @ 0x30 # post) (length pre) (length pre + length ds - 1)
          = (pre @ rev (fst (incr_rev ds)) @ 0x30 # post, snd (incr_rev ds))"
        using Cons.IH[OF F2, of "0x30 # post"] by simp
      finally show ?thesis using False by simp
    qed
  qed
qed

lemma unat_digit: "d < 10 \<Longrightarrow> unat (digit d) = 48 + d"
  by (simp add: digit_def unat_word_ariths unat_of_nat)

lemma digit_less_9: "d < 10 \<Longrightarrow> digit d < 0x39 \<longleftrightarrow> d < 9"
  by (simp add: word_less_nat_alt unat_digit)

lemma digit_Suc: "digit d + 1 = digit (Suc d)"
  by (simp add: digit_def)

lemma rdigits_small: "n < 10 \<Longrightarrow> rdigits n = [digit n]"
  by (subst rdigits.simps) simp

lemma rdigits_big: "\<not> n < 10 \<Longrightarrow> rdigits n = digit (n mod 10) # rdigits (n div 10)"
  by (subst rdigits.simps) simp

lemma incr_rev_rdigits:
  "(snd (incr_rev (rdigits n)) \<longrightarrow> rdigits (Suc n) = fst (incr_rev (rdigits n)))
   \<and> (\<not> snd (incr_rev (rdigits n)) \<longrightarrow> rdigits (Suc n) = fst (incr_rev (rdigits n)) @ [0x31])"
proof (induction n rule: rdigits.induct)
  case (1 n)
  have m: "n mod 10 < 10" by simp
  show ?case
  proof (cases "n < 10")
    case small: True
    show ?thesis
    proof (cases "n < 9")
      case True
      then have "rdigits (Suc n) = [digit (Suc n)]" by (intro rdigits_small) simp
      then show ?thesis using True small
        by (simp add: rdigits_small digit_less_9 digit_Suc)
    next
      case False
      then have n: "n = 9" using small by simp
      have "rdigits (Suc 9) = [0x30, 0x31]"
        by (simp add: rdigits_big rdigits_small digit_def)
      then show ?thesis unfolding n by (simp add: rdigits_small digit_def)
    qed
  next
    case big: False
    then have bigS: "\<not> Suc n < 10" by simp
    show ?thesis
    proof (cases "n mod 10 < 9")
      case True
      then have a: "Suc n mod 10 = Suc (n mod 10)" "Suc n div 10 = n div 10"
        by (auto simp add: mod_Suc div_Suc)
      show ?thesis
        using True
        by (simp add: rdigits_big[OF big] rdigits_big[OF bigS] a digit_less_9[OF m] digit_Suc)
    next
      case False
      then have n9: "n mod 10 = 9" using m by linarith
      then have a: "Suc n mod 10 = 0" "Suc n div 10 = Suc (n div 10)"
        by (auto simp add: mod_Suc div_Suc)
      have d9: "\<not> digit (n mod 10) < 0x39" using digit_less_9[OF m] False by simp
      have d0: "digit 0 = 0x30" by (simp add: digit_def)
      from "1.IH"[OF big] show ?thesis
        using d9
        by (simp add: rdigits_big[OF big] rdigits_big[OF bigS] a d0)
    qed
  qed
qed

lemma length_rdigits_le: "0 < k \<Longrightarrow> length (rdigits n) \<le> k \<longleftrightarrow> n < 10 ^ k"
proof (induction n arbitrary: k rule: rdigits.induct)
  case (1 n)
  show ?case
  proof (cases "n < 10")
    case True
    have "(10::nat) ^ 1 \<le> 10 ^ k" using "1.prems" by (intro power_increasing) simp_all
    then have "n < 10 ^ k" using True by simp
    then show ?thesis using True "1.prems" by (simp add: rdigits_small)
  next
    case False
    show ?thesis
    proof (cases k)
      case 0
      then show ?thesis using "1.prems" by simp
    next
      case (Suc j)
      show ?thesis
      proof (cases "j = 0")
        case True
        then show ?thesis using False Suc by (simp add: rdigits_big[OF False] rdigits_small)
           (cases "n div 10 < 10"; simp add: rdigits_small rdigits_big)
      next
        case F2: False
        then have j: "0 < j" by simp
        have "n < 10 ^ Suc j \<longleftrightarrow> n div 10 < 10 ^ j"
          by (simp add: less_mult_imp_div_less div_less_iff_less_mult mult.commute)
        with "1.IH"[OF False j] show ?thesis using Suc by (simp add: rdigits_big[OF False])
      qed
    qed
  qed
qed

lemma rdigits_not_Nil [simp]: "rdigits n \<noteq> []"
  by (subst rdigits.simps) simp

lemma next_line_num_counter_of:
  assumes "Suc n < 10 ^ 18"
  shows "next_line_num (counter_of n) = counter_of (Suc n)"
proof -
  define ds where "ds = rdigits n"
  define start where "start = 18 - length ds"
  have "n < 10 ^ 18" using assms by simp
  then have len: "length ds \<le> 18" "0 < length ds"
    using length_rdigits_le[of 18 n] by (simp_all add: ds_def)
  have ne: "ds \<noteq> []" by (simp add: ds_def)
  have e: "17 = length (replicate start (0x20 :: byte)) + length ds - 1"
    using len by (simp add: start_def)
  have c: "carry_loop (replicate start 0x20 @ rev ds @ [0x09, 0x00]) start 17
      = (replicate start 0x20 @ rev (fst (incr_rev ds)) @ [0x09, 0x00], snd (incr_rev ds))"
    using carry_loop_digits[OF ne, of "replicate start 0x20" "[0x09, 0x00]"]
    unfolding e[symmetric] by simp
  show ?thesis
  proof (cases "snd (incr_rev ds)")
    case True
    then have "rdigits (Suc n) = fst (incr_rev ds)"
      using incr_rev_rdigits[of n] by (simp add: ds_def)
    then show ?thesis
      using c True
      by (simp add: next_line_num_def counter_of_def ds_def[symmetric] start_def[symmetric])
  next
    case False
    then have r: "rdigits (Suc n) = fst (incr_rev ds) @ [0x31]"
      using incr_rev_rdigits[of n] by (simp add: ds_def)
    have "length (rdigits (Suc n)) \<le> 18" using length_rdigits_le[of 18 "Suc n"] assms by simp
    then have l17: "length ds \<le> 17" unfolding r by simp
    then have pos: "0 < start" by (simp add: start_def)
    then obtain st where st: "start = Suc st" by (cases start) auto
    have upd: "(replicate start 0x20 @ rev (fst (incr_rev ds)) @ [0x09, 0x00])[start - Suc 0 := 0x31]
        = replicate (start - Suc 0) 0x20 @ 0x31 # rev (fst (incr_rev ds)) @ [0x09, 0x00]"
      unfolding st by (simp add: list_update_append replicate_append_same[symmetric])
    have A: "18 - Suc (length ds) = start - Suc 0" by (simp add: start_def)
    have P: "(if start - Suc 0 < min 12 start then min 12 start - Suc 0 else min 12 start)
        = min 12 (start - Suc 0)"
      using pos by (auto simp add: min_def)
    have "next_line_num (counter_of n)
        = \<lparr>line_buf = replicate (start - Suc 0) 0x20 @ 0x31 # rev (fst (incr_rev ds)) @ [0x09, 0x00],
           line_num_print = min 12 (start - Suc 0), line_num_start = start - Suc 0, line_num_end = 17\<rparr>"
      using c False pos
      by (simp add: next_line_num_def counter_of_def ds_def[symmetric] start_def[symmetric]
            Let_def upd P)
    also have "\<dots> = counter_of (Suc n)"
      by (simp add: counter_of_def r start_def)
    finally show ?thesis .
  qed
qed

lemma counter_of_0: "counter_of 0 = initial_counter"
  by (simp add: counter_of_def initial_counter_def rdigits_small digit_def
        LINE_COUNTER_BUF_LEN_def)

text \<open>
  The line counter counts in decimal: after \<open>n\<close> increments from its initial state, for
  \<open>n\<close> below \<open>10 ^ 18\<close>, the buffer holds the decimal digits of \<open>n\<close> right justified before
  the tab, \<^verbatim>\<open>line_num_start\<close> is at the first digit, and \<^verbatim>\<open>line_num_print\<close> is six columns
  before the tab or at the first digit, whichever comes first.
\<close>

theorem counter_counts_in_decimal:
  assumes "n < 10 ^ 18"
  shows "(next_line_num ^^ n) initial_counter = counter_of n"
  using assms
proof (induction n)
  case 0
  show ?case by (simp add: counter_of_0)
next
  case (Suc n)
  then have "(next_line_num ^^ n) initial_counter = counter_of n" by simp
  then show ?case using next_line_num_counter_of[OF Suc.prems] by simp
qed

lemma rdigits_9999999998:
  "rdigits 9999999998 = [0x38, 0x39, 0x39, 0x39, 0x39, 0x39, 0x39, 0x39, 0x39, 0x39]"
  by (simp add: rdigits_big rdigits_small digit_def)

lemma counter_of_9999999998: "counter_of 9999999998 = counter_9999999998"
  by (simp add: counter_of_def rdigits_9999999998 counter_9999999998_def)

theorem counter_counts_in_decimal_witness:
  "(9999999998 :: nat) < 10 ^ 18
   \<and> (next_line_num ^^ 9999999998) initial_counter = counter_9999999998"
proof -
  have h: "(9999999998 :: nat) < 10 ^ 18" by simp
  from counter_counts_in_decimal[OF h] h show ?thesis
    by (simp only: counter_of_9999999998 simp_thms)
qed


section \<open>Substitution mode\<close>

lemma byte_of_nat_mem:
  fixes b :: byte
  assumes "unat b \<in> set ns"
  shows "b \<in> set (map of_nat ns)"
proof -
  have eq: "(of_nat (unat b) :: byte) = b" by simp
  have "of_nat (unat b) \<in> (of_nat ` set ns :: byte set)" using assms by (rule imageI)
  then show ?thesis unfolding eq set_map .
qed

lemma for_all_bytes:
  fixes b :: byte
  assumes "list_all P (map of_nat [0..<256])"
  shows "P b"
proof -
  have "unat b < 256" using unsigned_less[of b] by simp
  then have "unat b \<in> set [0..<256]" by simp
  then have "b \<in> set (map of_nat [0..<256])" by (rule byte_of_nat_mem)
  with assms show ?thesis by (simp only: list_all_iff)
qed

lemma for_all_letters:
  fixes b :: byte
  assumes "is_letter b" and "list_all P (map of_nat ([65..<91] @ [97..<123]))"
  shows "P b"
proof -
  have "(65 \<le> unat b \<and> unat b < 91) \<or> (97 \<le> unat b \<and> unat b < 123)"
    using assms(1) by (auto simp add: is_letter_def word_le_nat_alt)
  then have "unat b \<in> set ([65..<91] @ [97..<123])"
    by (simp only: set_append set_upt atLeastLessThan_iff Un_iff)
  then have "b \<in> set (map of_nat ([65..<91] @ [97..<123]))" by (rule byte_of_nat_mem)
  with assms(2) show ?thesis by (simp only: list_all_iff)
qed

lemma char_size_ranges: "char_size c = char_size_by_range c"
proof -
  have "list_all (\<lambda>c. char_size c = char_size_by_range c) (map of_nat [0..<256])"
    by code_simp
  from for_all_bytes[of "\<lambda>c. char_size c = char_size_by_range c", OF this]
  show ?thesis .
qed

lemma letter_facts:
  assumes "is_letter c"
  shows "char_size_at [c] 0 = Inr (declared_length c)"
    and "copied_bytes [c] 0 = Inr (replacement c)"
    and "length (replacement c) = declared_length c"
    and "c < 0x80"
proof -
  have "list_all (\<lambda>c. char_size_at [c] 0 = Inr (declared_length c)
          \<and> copied_bytes [c] 0 = Inr (replacement c)
          \<and> length (replacement c) = declared_length c \<and> c < 0x80)
        (map of_nat ([65..<91] @ [97..<123]))"
    by code_simp
  from for_all_letters[OF assms, of "\<lambda>c. char_size_at [c] 0 = Inr (declared_length c)
          \<and> copied_bytes [c] 0 = Inr (replacement c)
          \<and> length (replacement c) = declared_length c \<and> c < 0x80", OF this]
  show "char_size_at [c] 0 = Inr (declared_length c)"
    and "copied_bytes [c] 0 = Inr (replacement c)"
    and "length (replacement c) = declared_length c"
    and "c < 0x80" by simp_all
qed

lemma char_size_at_single: "i < length buf \<Longrightarrow> char_size_at buf i = char_size_at [buf ! i] 0"
  by (simp add: char_size_at_def select_puc_def Let_def)

lemma select_puc_letter:
  "i < length buf \<Longrightarrow> is_letter (buf ! i) \<Longrightarrow> select_puc buf i = select_puc [buf ! i] 0"
  by (auto simp add: select_puc_def Let_def is_letter_def)

lemma select_puc_other:
  "\<not> is_letter (buf ! i) \<Longrightarrow> select_puc buf i = In_buf i"
  by (auto simp add: select_puc_def Let_def is_letter_def)

lemma deref_letter:
  "is_letter c \<Longrightarrow> deref buf (select_puc [c] 0) = deref buf' (select_puc [c] 0)"
  by (auto simp add: select_puc_def Let_def is_letter_def fun_eq_iff)

lemma copied_bytes_letter:
  assumes "i < length buf" "is_letter (buf ! i)"
  shows "copied_bytes buf i = copied_bytes [buf ! i] 0"
proof -
  have p: "select_puc buf i = select_puc [buf ! i] 0"
    using assms by (rule select_puc_letter)
  have d: "deref buf (select_puc [buf ! i] 0) = deref [buf ! i] (select_puc [buf ! i] 0)"
    using assms(2) by (rule deref_letter)
  have c: "char_size_at buf i = char_size_at [buf ! i] 0"
    using assms(1) by (rule char_size_at_single)
  show ?thesis
    unfolding copied_bytes_def c p d by simp
qed

lemma char_size_at_other:
  assumes "i < length buf" "\<not> is_letter (buf ! i)"
  shows "char_size_at buf i = char_size (buf ! i)"
  using assms by (simp add: char_size_at_def select_puc_other)

lemma ascii_byte:
  assumes "i < length buf" "buf ! i < 0x80"
  shows "char_size_at buf i = Inr (declared_length (buf ! i))"
    and "copied_bytes buf i = Inr (replacement (buf ! i))"
proof -
  show "char_size_at buf i = Inr (declared_length (buf ! i))"
  proof (cases "is_letter (buf ! i)")
    case True
    then show ?thesis using letter_facts(1) char_size_at_single[OF assms(1)] by simp
  next
    case False
    then show ?thesis
      using assms char_size_at_other[OF assms(1) False]
      by (simp add: char_size_ranges char_size_by_range_def declared_length_def)
  qed
  show "copied_bytes buf i = Inr (replacement (buf ! i))"
  proof (cases "is_letter (buf ! i)")
    case True
    then show ?thesis using letter_facts(2) copied_bytes_letter[OF assms(1)] by simp
  next
    case False
    then show ?thesis
      using assms char_size_at_other[OF assms(1) False]
      by (simp add: copied_bytes_def char_size_ranges char_size_by_range_def replacement_def select_puc_other)
  qed
qed

lemma uclen_loop_ascii:
  assumes "list_all (\<lambda>i. i < length buf \<and> buf ! i < 0x80) is"
  shows "uclen_loop buf is uclen = Inr (uclen + sum_list (map (\<lambda>i. declared_length (buf ! i)) is))"
  using assms by (induction "is" arbitrary: uclen) (simp_all add: ascii_byte)

lemma copy_loop_ascii:
  assumes "list_all (\<lambda>i. i < length buf \<and> buf ! i < 0x80) is"
  shows "copy_loop buf is unibuf = Inr (unibuf @ concat (map (\<lambda>i. replacement (buf ! i)) is))"
  using assms by (induction "is" arbitrary: unibuf) (simp_all add: ascii_byte)

lemma length_replacement: "c < 0x80 \<Longrightarrow> length (replacement c) = declared_length c"
  using letter_facts(3)[of c] by (cases "is_letter c") (simp_all add: replacement_def declared_length_def)

lemma length_concat_replacement:
  "list_all (\<lambda>b. b < 0x80) xs \<Longrightarrow>
     length (concat (map replacement xs)) = sum_list (map declared_length xs)"
  by (induction xs) (simp_all add: length_replacement)

lemma map_nth_upt_take: "n \<le> length xs \<Longrightarrow> map (\<lambda>i. f (xs ! i)) [0..<n] = map f (take n xs)"
  by (simp add: list_eq_iff_nth_eq)

text \<open>
  Substitution of a block of \<open>n\<close> bytes that are all below 0x80: the block
  written is the concatenation, in order, of one replacement per input byte: a byte that
  is not a letter is written unchanged as one byte, a letter is replaced by its table
  entry, and the length of the block written is the sum of the declared lengths (1 for
  a byte that is not a letter, the encoded length of the slot for a letter).
\<close>

theorem substitution_of_ascii_block:
  assumes "n \<le> length buf" and "list_all (\<lambda>b. b < 0x80) (take n buf)"
  shows "convert_block buf n = Inr (concat (map replacement (take n buf)))
       \<and> length (concat (map replacement (take n buf))) = sum_list (map declared_length (take n buf))"
proof -
  have "buf ! i < 0x80" if "i < n" for i
  proof -
    have "take n buf ! i \<in> set (take n buf)" using that assms(1) by (intro nth_mem) simp
    then show ?thesis using that assms(2) by (simp add: list_all_iff)
  qed
  then have idx: "list_all (\<lambda>i. i < length buf \<and> buf ! i < 0x80) [0..<n]"
    using assms(1) by (simp add: list_all_iff)
  have len: "length (concat (map replacement (take n buf))) = sum_list (map declared_length (take n buf))"
    using assms(2) by (rule length_concat_replacement)
  show ?thesis
    using len by (simp add: convert_block_def uclen_loop_ascii[OF idx] copy_loop_ascii[OF idx]
        map_nth_upt_take[OF assms(1)])
qed

theorem substitution_of_ascii_block_witness:
  "3 \<le> length [0x48, 0x69, 0x21 :: byte]
   \<and> list_all (\<lambda>b. b < 0x80) (take 3 [0x48, 0x69, 0x21 :: byte])
   \<and> convert_block [0x48, 0x69, 0x21] 3 = Inr [0x48, 0xC4, 0xB1, 0x21]
   \<and> length [0x48, 0xC4, 0xB1, 0x21 :: byte]
       = sum_list (map declared_length (take 3 [0x48, 0x69, 0x21]))"
proof -
  have h1: "3 \<le> length [0x48, 0x69, 0x21 :: byte]" by simp
  have h2: "list_all (\<lambda>b. b < 0x80) (take 3 [0x48, 0x69, 0x21 :: byte])" by simp
  have r: "concat (map replacement (take 3 [0x48, 0x69, 0x21])) = [0x48, 0xC4, 0xB1, 0x21]"
    by code_simp
  from substitution_of_ascii_block[OF h1 h2] h1 h2 show ?thesis
    unfolding r by simp
qed

text \<open>
  C1 fails on the code, for a byte that starts a multi-byte UTF-8 character (0xC0 to
  0xF7). Both passes of \<^verbatim>\<open>simple_cat\<close> visit every index of the block, take \<^verbatim>\<open>char_size\<close> of
  the byte there and copy that many bytes from \<^verbatim>\<open>buf + i\<close>, with no bound at \<^verbatim>\<open>n_read\<close>, and
  go on at \<^verbatim>\<open>i + 1\<close>. Three runs, the first two through a buffer of four bytes:

    \<^item> the bytes \<^verbatim>\<open>41 41 C3\<close>, read as \<^verbatim>\<open>41 41\<close> and then \<^verbatim>\<open>C3\<close>. For the second block
      \<^verbatim>\<open>char_size\<close> answers 2 and two bytes are written for its one byte: \<^verbatim>\<open>C3\<close> and the
      stale \<^verbatim>\<open>41\<close> that the read before left behind it;
    \<^item> the bytes \<^verbatim>\<open>C3 A9\<close> (one well-formed character), read at once. The first pass
      counts 2 for \<^verbatim>\<open>C3\<close>, goes on at \<^verbatim>\<open>A9\<close> and the process dies there, with nothing
      written;
    \<^item> the byte \<^verbatim>\<open>C3\<close> read into a buffer of one byte: the second byte copied is read from
      outside the buffer.
\<close>

theorem substitution_lead_byte_failing_input:
  "simple_cat [0x00, 0x00, 0x00, 0x00] 4 [Data [0x41, 0x41], Data [0xC3]] []
     = (Returned True, [[0xE2, 0x88, 0x80, 0xE2, 0x88, 0x80], [0xC3, 0x41]])
   \<and> simple_cat [0x00, 0x00, 0x00, 0x00] 4 [Data [0xC3, 0xA9]] []
     = (Died Unexpected_UTF8, [])
   \<and> simple_cat [0x00] 1 [Data [0xC3]] [] = (Died Read_out_of_bounds, [])"
  by code_simp

lemma store_chunk_nth: "i < length c \<Longrightarrow> store_chunk c buf ! i = c ! i"
  by (simp add: store_chunk_def nth_append)

lemma store_chunk_length: "length c \<le> length (store_chunk c buf)"
  by (simp add: store_chunk_def)

lemma char_size_at_cases:
  assumes "i < length buf"
  shows "char_size_at buf i = Inl Unexpected_UTF8 \<or> (\<not> invalid_lead (buf ! i) \<and> (\<exists>n. char_size_at buf i = Inr n))"
proof (cases "is_letter (buf ! i)")
  case True
  from letter_facts(1)[OF True] letter_facts(4)[OF True] char_size_at_single[OF assms]
  show ?thesis by (auto simp add: invalid_lead_def word_less_nat_alt word_le_nat_alt)
next
  case False
  show ?thesis
    unfolding char_size_at_other[OF assms False] char_size_ranges char_size_by_range_def invalid_lead_def
    by (auto simp add: word_less_nat_alt word_le_nat_alt)
qed

lemma uclen_loop_dies:
  assumes "list_all (\<lambda>i. i < length buf) is" and "list_ex (\<lambda>i. invalid_lead (buf ! i)) is"
  shows "uclen_loop buf is uclen = Inl Unexpected_UTF8"
  using assms
proof (induction "is" arbitrary: uclen)
  case Nil
  then show ?case by simp
next
  case (Cons i "is")
  from Cons.prems(1) have i: "i < length buf" by simp
  from char_size_at_cases[OF i] show ?case
  proof
    assume "char_size_at buf i = Inl Unexpected_UTF8"
    then show ?thesis by simp
  next
    assume a: "\<not> invalid_lead (buf ! i) \<and> (\<exists>n. char_size_at buf i = Inr n)"
    then obtain n where n: "char_size_at buf i = Inr n" by blast
    from a Cons.prems have "list_all (\<lambda>i. i < length buf) is" "list_ex (\<lambda>i. invalid_lead (buf ! i)) is"
      by simp_all
    from Cons.IH[OF this] show ?thesis using n by simp
  qed
qed

text \<open>
  C9. A block that holds a byte in 0x80 to 0xBF or 0xF8 to 0xFF ends the process in
  \<^verbatim>\<open>char_size\<close> during the first pass: the outcome is the fatal "unexpected UTF-8
  encoding", and what has been written is what was written before the block, so nothing
  of the block, the byte included, reaches the output.
\<close>

theorem invalid_byte_is_fatal:
  assumes "b \<in> set c" and "(0x80 \<le> b \<and> b \<le> 0xBF) \<or> 0xF8 \<le> b"
  shows "simple_cat buf bufsize (Data c # rs) out = (Died Unexpected_UTF8, out)"
proof -
  from assms(1) obtain k where k: "k < length c" "c ! k = b" by (auto simp add: in_set_conv_nth)
  let ?buf = "store_chunk c buf"
  have 1: "list_all (\<lambda>i. i < length ?buf) [0..<length c]"
    using store_chunk_length[of c buf] by (simp add: list_all_iff)
  have "invalid_lead (?buf ! k)" using k assms(2) by (simp add: store_chunk_nth invalid_lead_def)
  then have 2: "list_ex (\<lambda>i. invalid_lead (?buf ! i)) [0..<length c]"
    using k(1) by (auto simp add: list_ex_iff)
  have "convert_block ?buf (length c) = Inl Unexpected_UTF8"
    by (simp add: convert_block_def uclen_loop_dies[OF 1 2])
  moreover have "c \<noteq> []" using assms(1) by auto
  ultimately show ?thesis by simp
qed

theorem invalid_byte_is_fatal_witness:
  "0xA9 \<in> set [0xC3, 0xA9 :: byte]
   \<and> (0x80 \<le> (0xA9 :: byte) \<and> (0xA9 :: byte) \<le> 0xBF)
   \<and> simple_cat [0x41, 0x61, 0x20, 0x00] 4 [Data [0xC3, 0xA9]] [[0xE2, 0x88, 0x80, 0xC9, 0x90, 0x20]]
       = (Died Unexpected_UTF8, [[0xE2, 0x88, 0x80, 0xC9, 0x90, 0x20]])"
proof -
  have h1: "0xA9 \<in> set [0xC3, 0xA9 :: byte]" by simp
  have h2: "0x80 \<le> (0xA9 :: byte) \<and> (0xA9 :: byte) \<le> 0xBF" by simp
  then have h3: "(0x80 \<le> (0xA9 :: byte) \<and> (0xA9 :: byte) \<le> 0xBF) \<or> 0xF8 \<le> (0xA9 :: byte)" ..
  from invalid_byte_is_fatal[OF h1 h3] h1 h2 show ?thesis by blast
qed


section \<open>The formatting engine: the output stream\<close>

text \<open>
  Flushing moves bytes from the buffer to the writes and leaves the stream as it is;
  every store appends to it. The two loops map states that agree up to a prefix of the
  stream to states that agree up to the same prefix, whatever the two output sizes are.
\<close>

lemma write_blocks_stream:
  "write_blocks outsize buf w = (remaining, w') \<Longrightarrow> concat w' @ remaining = concat w @ buf"
proof (induction outsize buf w arbitrary: remaining w' rule: write_blocks.induct)
  case (1 outsize buf w)
  show ?case
  proof (cases "0 < outsize \<and> outsize \<le> length (drop outsize buf)")
    case True
    with "1.prems" have "write_blocks outsize (drop outsize buf) (w @ [take outsize buf]) = (remaining, w')"
      by (simp add: write_blocks.simps[of outsize buf])
    from "1.IH"[OF True this] show ?thesis by simp
  next
    case False
    with "1.prems" show ?thesis by (auto simp add: write_blocks.simps[of outsize buf])
  qed
qed

lemma stream_flush_check [simp]: "stream (flush_check outsize s) = stream s"
  by (auto simp add: flush_check_def stream_def split: prod.splits dest: write_blocks_stream)

lemma counter_flush_check [simp]: "counter (flush_check outsize s) = counter s"
  by (simp add: flush_check_def split: prod.splits)

lemma newlines_flush_check [simp]: "newlines (flush_check outsize s) = newlines s"
  by (simp add: flush_check_def split: prod.splits)

lemma stream_write_pending [simp]: "stream (write_pending s) = stream s"
  by (simp add: write_pending_def stream_def)

lemma counter_write_pending [simp]: "counter (write_pending s) = counter s"
  by (simp add: write_pending_def)

lemma newlines_write_pending [simp]: "newlines (write_pending s) = newlines s"
  by (simp add: write_pending_def)

lemma outbuf_write_pending [simp]: "outbuf (write_pending s) = []"
  by (simp add: write_pending_def)

lemma stream_put [simp]: "stream (put bs s) = stream s @ bs"
  by (simp add: put_def stream_def)

lemma counter_put [simp]: "counter (put bs s) = counter s"
  by (simp add: put_def)

lemma newlines_put [simp]: "newlines (put bs s) = newlines s"
  by (simp add: put_def)

lemma stream_put_line_num [simp]:
  "stream (put_line_num s) = stream s @ line_num_string (next_line_num (counter s))"
  by (simp add: put_line_num_def stream_def Let_def)

lemma counter_put_line_num [simp]: "counter (put_line_num s) = next_line_num (counter s)"
  by (simp add: put_line_num_def Let_def)

lemma newlines_put_line_num [simp]: "newlines (put_line_num s) = newlines s"
  by (simp add: put_line_num_def Let_def)

lemma stream_newlines_update [simp]: "stream (s\<lparr>newlines := n\<rparr>) = stream s"
  by (simp add: stream_def)

lemma extends_flush_check:
  "extends p s t \<Longrightarrow> extends p (flush_check o1 s) (flush_check o2 t)"
  by (simp add: extends_def)

lemma extends_put: "extends p s t \<Longrightarrow> extends p (put bs s) (put bs t)"
  by (simp add: extends_def)

lemma extends_put_line_num: "extends p s t \<Longrightarrow> extends p (put_line_num s) (put_line_num t)"
  by (simp add: extends_def)

lemma extends_newlines: "extends p s t \<Longrightarrow> extends p (s\<lparr>newlines := n\<rparr>) (t\<lparr>newlines := n\<rparr>)"
  by (simp add: extends_def)

lemma extends_real_newline:
  "extends p s t \<Longrightarrow> extends p (real_newline opts s) (real_newline opts t)"
  by (simp add: extends_def real_newline_def Let_def)

lemma extends_store_char:
  "extends p s t \<Longrightarrow> extends p (store_char opts ch rest s) (store_char opts ch rest t)"
  by (simp add: store_char_def extends_put)

lemma chars_loop_newline [simp]:
  "chars_loop opts outsize 0x0A rest s =
     fetch_line opts outsize rest (real_newline opts (flush_check outsize (s\<lparr>newlines := - 1\<rparr>)))"
  by (subst chars_loop.simps) simp

lemma chars_loop_last [simp]:
  "ch \<noteq> 0x0A \<Longrightarrow> chars_loop opts outsize ch [] s = (store_char opts ch [] s)\<lparr>newlines := - 1\<rparr>"
  by (subst chars_loop.simps) simp

lemma chars_loop_next [simp]:
  "ch \<noteq> 0x0A \<Longrightarrow>
     chars_loop opts outsize ch (c # cs) s = chars_loop opts outsize c cs (store_char opts ch (c # cs) s)"
  by (subst chars_loop.simps) simp

lemma extends_loops:
  "extends p s t \<Longrightarrow> extends p (fetch_line opts o1 c s) (fetch_line opts o2 c t)"
  "extends p s t \<Longrightarrow> extends p (chars_loop opts o1 ch rest s) (chars_loop opts o2 ch rest t)"
proof (induction opts o1 c s and opts o1 ch rest s arbitrary: t and t rule: fetch_line_chars_loop.induct)
  case (1 opts outsize s)
  then show ?case by simp
next
  case (2 opts outsize c cs s)
  show ?case
  proof (cases "c = 0x0A")
    case True
    have "extends p (real_newline opts (flush_check outsize s)) (real_newline opts (flush_check o2 t))"
      using "2.prems" by (intro extends_real_newline extends_flush_check)
    from "2.IH"(1)[OF True this] True show ?thesis by simp
  next
    case False
    have nl: "newlines s = newlines t" using "2.prems" by (simp add: extends_def)
    have "extends p (if 0 \<le> newlines s \<and> number opts then put_line_num s else s)
                    (if 0 \<le> newlines t \<and> number opts then put_line_num t else t)"
      using "2.prems" nl by (simp add: extends_put_line_num)
    from "2.IH"(2)[OF False this] False show ?thesis by simp
  qed
next
  case (3 opts outsize ch rest s)
  show ?case
  proof (cases "ch = 0x0A")
    case True
    have "extends p (real_newline opts (flush_check outsize (s\<lparr>newlines := - 1\<rparr>)))
                    (real_newline opts (flush_check o2 (t\<lparr>newlines := - 1\<rparr>)))"
      using "3.prems" by (intro extends_real_newline extends_flush_check extends_newlines)
    from "3.IH"(1)[OF True this] True show ?thesis
      by simp
  next
    case False
    have st: "extends p (store_char opts ch rest s) (store_char opts ch rest t)"
      using "3.prems" by (rule extends_store_char)
    show ?thesis
    proof (cases rest)
      case Nil
      then show ?thesis using False st
        by (simp add: extends_newlines)
    next
      case (Cons c cs)
      from "3.IH"(2)[OF False Cons st] Cons False show ?thesis
        by simp
    qed
  qed
qed

text \<open>
  Scanning a chunk in two parts: the state after \<open>c1 @ c2\<close> is the state after \<open>c2\<close>
  scanned from the state after \<open>c1\<close>, unless the cut separates a carriage return from a
  byte other than newline.
\<close>

lemma store_char_newlines [simp]:
  "store_char opts ch rest (s\<lparr>newlines := n\<rparr>) = (store_char opts ch rest s)\<lparr>newlines := n\<rparr>"
  by (simp add: store_char_def put_def)

lemma chars_loop_ignores_newlines [simp]:
  "chars_loop opts outsize ch rest (s\<lparr>newlines := n\<rparr>) = chars_loop opts outsize ch rest s"
proof (induction rest arbitrary: ch s)
  case Nil
  then show ?case by (cases "ch = 0x0A") simp_all
next
  case (Cons c cs)
  then show ?case by (cases "ch = 0x0A") simp_all
qed

lemma store_char_peek:
  "peek rest = peek rest' \<Longrightarrow> store_char opts ch rest s = store_char opts ch rest' s"
  by (simp add: store_char_def)

lemma store_char_no_cr:
  "\<not> (show_ends opts \<and> \<not> show_nonprinting opts \<and> ch = 0x0D) \<Longrightarrow>
     store_char opts ch rest s = store_char opts ch rest' s"
  by (auto simp add: store_char_def plain_char_def)

lemma split_loops:
  "\<not> splits_cr opts c1 c2 \<Longrightarrow>
     fetch_line opts outsize (c1 @ c2) s = fetch_line opts outsize c2 (fetch_line opts outsize c1 s)"
  "\<not> splits_cr opts (ch # rest) c2 \<Longrightarrow>
     chars_loop opts outsize ch (rest @ c2) s = fetch_line opts outsize c2 (chars_loop opts outsize ch rest s)"
proof (induction opts outsize c1 s and opts outsize ch rest s rule: fetch_line_chars_loop.induct)
  case (1 opts outsize s)
  then show ?case by simp
next
  case (2 opts outsize c cs s)
  show ?case
  proof (cases "c = 0x0A")
    case True
    have "\<not> splits_cr opts cs c2" using "2.prems" True by (auto simp add: splits_cr_def)
    from "2.IH"(1)[OF True this] True show ?thesis by simp
  next
    case False
    from "2.IH"(2)[OF False "2.prems"] False show ?thesis by simp
  qed
next
  case (3 opts outsize ch rest s)
  show ?case
  proof (cases "ch = 0x0A")
    case True
    have "\<not> splits_cr opts rest c2" using "3.prems" True by (auto simp add: splits_cr_def)
    from "3.IH"(1)[OF True this] True show ?thesis by simp
  next
    case False
    show ?thesis
    proof (cases rest)
      case Nil
      show ?thesis
      proof (cases c2)
        case N2: Nil
        then show ?thesis using Nil by simp
      next
        case (Cons d ds)
        show ?thesis
        proof (cases "d = 0x0A")
          case True
          have "store_char opts ch (d # ds) s = store_char opts ch [] s"
            using True by (intro store_char_peek) (simp add: peek_def)
          then show ?thesis using Nil Cons False True by simp
        next
          case F3: False
          have "\<not> (show_ends opts \<and> \<not> show_nonprinting opts \<and> ch = 0x0D)"
            using "3.prems" Nil Cons F3 by (auto simp add: splits_cr_def)
          then have "store_char opts ch (d # ds) s = store_char opts ch [] s"
            by (rule store_char_no_cr)
          then show ?thesis using Nil Cons False F3 by simp
        qed
      qed
    next
      case (Cons c cs)
      have "\<not> splits_cr opts (c # cs) c2" using "3.prems" Cons by (auto simp add: splits_cr_def)
      from "3.IH"(2)[OF False Cons this]
      have "chars_loop opts outsize c (cs @ c2) (store_char opts ch rest s)
          = fetch_line opts outsize c2 (chars_loop opts outsize c cs (store_char opts ch rest s))" .
      moreover have "store_char opts ch (c # cs @ c2) s = store_char opts ch rest s"
        using Cons by (intro store_char_peek) (simp add: peek_def)
      ultimately show ?thesis using Cons False by simp
    qed
  qed
qed

text \<open>
  Over reads that deliver data, \<^verbatim>\<open>cat\<close> returns true with nothing left in the buffer, and
  its output stream, line counter and \<open>newlines\<close> are those of the scan of the whole
  input as one chunk, provided no chunk boundary separates a carriage return from a
  byte other than newline.
\<close>

lemma extends_refl [simp]: "extends [] s s"
  by (simp add: extends_def)

lemma extends_trans: "extends p s t \<Longrightarrow> extends q t u \<Longrightarrow> extends (p @ q) s u"
  by (simp add: extends_def)

lemma extends_trans0: "extends [] s t \<Longrightarrow> extends [] t u \<Longrightarrow> extends [] s u"
  using extends_trans[of "[]" s t "[]" u] by simp

lemma cat_loop_clean_step:
  assumes "clean_read ev"
  shows "\<exists>s2. extends [] s2 s \<and>
           cat_loop opts outsize f (ev # evs) s
             = cat_loop opts outsize (f \<and> fst ev \<noteq> Not_supported) evs
                 (fetch_line opts outsize (chunk_of ev) s2)"
proof -
  obtain io c where ev: "ev = (io, Data c)" and c: "c \<noteq> []" and io: "io \<noteq> Ioctl_error"
    using assms by (cases ev; cases "snd ev") (auto simp add: clean_read_def)
  let ?s1 = "flush_check outsize s"
  let ?pending = "((f \<and> io \<noteq> Not_supported) \<and> (case io of Bytes_ready n \<Rightarrow> n \<noteq> 0 | _ \<Rightarrow> False))"
  let ?s2 = "if ?pending then ?s1 else write_pending ?s1"
  have "extends [] ?s2 s" by (simp add: extends_def)
  moreover have "cat_loop opts outsize f (ev # evs) s
             = cat_loop opts outsize (f \<and> fst ev \<noteq> Not_supported) evs
                 (fetch_line opts outsize (chunk_of ev) ?s2)"
    using ev c io by (simp add: Let_def)
  ultimately show ?thesis by blast
qed

lemma splits_cr_concat:
  assumes "boundaries_ok opts (c # map chunk_of evs)" "list_all clean_read evs"
  shows "\<not> splits_cr opts c (input_of evs)"
proof (cases evs)
  case Nil
  then show ?thesis by (simp add: splits_cr_def input_of_def)
next
  case (Cons ev evs')
  then have "chunk_of ev \<noteq> []" using assms(2) by (simp add: clean_read_def)
  then have "hd (input_of evs) = hd (chunk_of ev)" using Cons by (simp add: input_of_def)
  moreover have "\<not> splits_cr opts c (chunk_of ev)" using assms(1) Cons by simp
  ultimately show ?thesis using \<open>chunk_of ev \<noteq> []\<close> by (auto simp add: splits_cr_def)
qed

lemma boundaries_ok_tail: "boundaries_ok opts (c # cs) \<Longrightarrow> boundaries_ok opts cs"
  by (cases cs) simp_all

lemma cat_loop_clean:
  assumes "list_all clean_read evs" "boundaries_ok opts (map chunk_of evs)"
  shows "\<exists>s'. cat_loop opts outsize f evs s = (True, s') \<and> outbuf s' = []
            \<and> extends [] s' (fetch_line opts outsize' (input_of evs) s)"
  using assms
proof (induction evs arbitrary: s f)
  case Nil
  then show ?case by (simp add: input_of_def extends_def)
next
  case (Cons ev evs)
  from Cons.prems have clean: "clean_read ev" "list_all clean_read evs"
    and b: "boundaries_ok opts (map chunk_of evs)"
    by (auto dest: boundaries_ok_tail)
  from cat_loop_clean_step[OF clean(1), of s opts outsize f evs]
  obtain s2 where s2: "extends [] s2 s"
    and step: "cat_loop opts outsize f (ev # evs) s
             = cat_loop opts outsize (f \<and> fst ev \<noteq> Not_supported) evs
                 (fetch_line opts outsize (chunk_of ev) s2)" by blast
  from Cons.IH[OF clean(2) b, of "f \<and> fst ev \<noteq> Not_supported" "fetch_line opts outsize (chunk_of ev) s2"]
  obtain s' where s': "cat_loop opts outsize (f \<and> fst ev \<noteq> Not_supported) evs
                 (fetch_line opts outsize (chunk_of ev) s2) = (True, s')" "outbuf s' = []"
     "extends [] s' (fetch_line opts outsize' (input_of evs) (fetch_line opts outsize (chunk_of ev) s2))"
    by blast
  have "extends [] (fetch_line opts outsize (chunk_of ev) s2) (fetch_line opts outsize' (chunk_of ev) s)"
    using s2 by (rule extends_loops(1))
  then have "extends [] (fetch_line opts outsize' (input_of evs) (fetch_line opts outsize (chunk_of ev) s2))
                        (fetch_line opts outsize' (input_of evs) (fetch_line opts outsize' (chunk_of ev) s))"
    by (rule extends_loops(1))
  moreover have "fetch_line opts outsize' (input_of evs) (fetch_line opts outsize' (chunk_of ev) s)
      = fetch_line opts outsize' (input_of (ev # evs)) s"
    using split_loops(1)[OF splits_cr_concat[OF _ clean(2)], of opts "chunk_of ev" outsize' s] Cons.prems(2)
    by (simp add: input_of_def)
  ultimately have "extends [] s' (fetch_line opts outsize' (input_of (ev # evs)) s)"
    using s'(3) extends_trans0 by metis
  then show ?case using step s'(1,2) by simp
qed

lemma cat_clean:
  assumes "0 < outsize" "list_all clean_read evs" "boundaries_ok opts (map chunk_of evs)"
  shows "\<exists>r. cat insize outsize opts g evs = Some r \<and> ok r
            \<and> concat (writes r) = stream (scan opts g (input_of evs))
            \<and> globals_after r = \<lparr>the_counter = counter (scan opts g (input_of evs)),
                                  newlines2 = newlines (scan opts g (input_of evs))\<rparr>"
proof -
  from cat_loop_clean[OF assms(2,3), of outsize True "entry_state g" 1]
  obtain s' where s': "cat_loop opts outsize True evs (entry_state g) = (True, s')" "outbuf s' = []"
     "extends [] s' (scan opts g (input_of evs))"
    by (auto simp add: scan_def)
  then show ?thesis using assms(1)
    by (simp add: cat_def entry_state_def[symmetric] extends_def stream_def)
qed

text \<open>The engine line by line.\<close>

lemma stream_store_char [simp]:
  "stream (store_char opts ch rest s)
     = stream s @ (if show_nonprinting opts then quote_char opts ch else plain_char opts ch (peek rest))"
  by (simp add: store_char_def)

lemma counter_store_char [simp]: "counter (store_char opts ch rest s) = counter s"
  by (simp add: store_char_def)

lemma chars_loop_line:
  assumes "0x0A \<notin> set (ch # cs)"
  shows "stream (chars_loop opts outsize ch cs s) = stream s @ render_line opts (ch # cs)"
    and "counter (chars_loop opts outsize ch cs s) = counter s"
    and "newlines (chars_loop opts outsize ch cs s) = - 1"
  using assms by (induction cs arbitrary: ch s) (simp_all add: peek_def)

lemma fetch_line_partial:
  assumes "0x0A \<notin> set l" "l \<noteq> []"
  shows "stream (fetch_line opts outsize l s)
           = stream s
             @ (if 0 \<le> newlines s \<and> number opts
                then line_num_string (next_line_num (counter s)) else [])
             @ render_line opts l"
    and "counter (fetch_line opts outsize l s)
           = (if 0 \<le> newlines s \<and> number opts then next_line_num (counter s) else counter s)"
    and "newlines (fetch_line opts outsize l s) = - 1"
proof -
  obtain c cs where l: "l = c # cs" using assms(2) by (cases l) auto
  then have nl: "0x0A \<notin> set (c # cs)" "c \<noteq> 0x0A" using assms(1) by auto
  show "stream (fetch_line opts outsize l s)
           = stream s
             @ (if 0 \<le> newlines s \<and> number opts
                then line_num_string (next_line_num (counter s)) else [])
             @ render_line opts l"
    using nl(2) unfolding l by (simp add: chars_loop_line[OF nl(1)])
  show "counter (fetch_line opts outsize l s)
           = (if 0 \<le> newlines s \<and> number opts then next_line_num (counter s) else counter s)"
    using nl(2) unfolding l by (simp add: chars_loop_line[OF nl(1)])
  show "newlines (fetch_line opts outsize l s) = - 1"
    using nl(2) unfolding l by (simp add: chars_loop_line[OF nl(1)])
qed

lemma fetch_line_after_line:
  "fetch_line opts outsize (l @ 0x0A # rest) s
     = fetch_line opts outsize rest (real_newline opts (flush_check outsize (fetch_line opts outsize l s)))"
proof -
  have "\<not> splits_cr opts l (0x0A # rest)" by (simp add: splits_cr_def)
  from split_loops(1)[OF this] show ?thesis by simp
qed

lemma stream_real_newline:
  "stream (real_newline opts s)
     = stream s @
       (if 1 \<le> newlines s \<and> squeeze_blank opts then []
        else (if 0 \<le> newlines s \<and> number opts \<and> \<not> number_nonblank opts
              then line_num_string (next_line_num (counter s)) else [])
             @ (if show_ends opts then [0x24] else []) @ [0x0A])"
  by (auto simp add: real_newline_def Let_def)

lemma counter_real_newline:
  "counter (real_newline opts s)
     = (if 1 \<le> newlines s \<and> squeeze_blank opts then counter s
        else if 0 \<le> newlines s \<and> number opts \<and> \<not> number_nonblank opts
             then next_line_num (counter s) else counter s)"
  by (auto simp add: real_newline_def Let_def)

lemma newlines_real_newline:
  "newlines (real_newline opts s) = (if 1 \<le> newlines s then 2 else newlines s + 1)"
  by (auto simp add: real_newline_def Let_def)

lemma scan_append:
  assumes "\<not> splits_cr opts a b"
  shows "stream (scan opts g (a @ b)) = stream (scan opts g a) @ stream (scan opts (globals_of (scan opts g a)) b)"
    and "globals_of (scan opts g (a @ b)) = globals_of (scan opts (globals_of (scan opts g a)) b)"
proof -
  have "extends (stream (scan opts g a)) (scan opts g a) (entry_state (globals_of (scan opts g a)))"
    by (simp add: extends_def entry_state_def globals_of_def stream_def)
  then have "extends (stream (scan opts g a)) (fetch_line opts 1 b (scan opts g a))
               (fetch_line opts 1 b (entry_state (globals_of (scan opts g a))))"
    by (rule extends_loops(1))
  moreover have "scan opts g (a @ b) = fetch_line opts 1 b (scan opts g a)"
    using split_loops(1)[OF assms] by (simp add: scan_def)
  ultimately have e: "extends (stream (scan opts g a)) (scan opts g (a @ b))
        (scan opts (globals_of (scan opts g a)) b)"
    by (simp add: scan_def)
  then show "stream (scan opts g (a @ b)) = stream (scan opts g a) @ stream (scan opts (globals_of (scan opts g a)) b)"
    by (simp add: extends_def)
  from e show "globals_of (scan opts g (a @ b)) = globals_of (scan opts (globals_of (scan opts g a)) b)"
    by (simp add: extends_def globals_of_def)
qed

lemma no_cr_boundaries_ok:
  "list_all (\<lambda>c. 0x0D \<notin> set c) cs \<Longrightarrow> boundaries_ok opts cs"
proof (induction opts cs rule: boundaries_ok.induct)
  case (3 opts c d cs)
  have "0x0D \<notin> set c" using "3.prems" by simp
  then have "c \<noteq> [] \<Longrightarrow> last c \<noteq> 0x0D" using last_in_set[of c] by metis
  then have "\<not> splits_cr opts c d" by (auto simp add: splits_cr_def)
  then show ?case using 3 by simp
qed simp_all

text \<open>After input that ends with a newline the engine is at the start of a line.\<close>

lemma newlines_after_newline:
  "- 1 \<le> newlines s \<Longrightarrow> c \<noteq> [] \<Longrightarrow> last c = 0x0A \<Longrightarrow> 0 \<le> newlines (fetch_line opts outsize c s)"
  "last (ch # rest) = 0x0A \<Longrightarrow> 0 \<le> newlines (chars_loop opts outsize ch rest s)"
proof (induction opts outsize c s and opts outsize ch rest s rule: fetch_line_chars_loop.induct)
  case (1 opts outsize s)
  then show ?case by simp
next
  case (2 opts outsize c cs s)
  show ?case
  proof (cases "c = 0x0A")
    case True
    let ?s = "real_newline opts (flush_check outsize s)"
    have n: "0 \<le> newlines ?s" using "2.prems"(1) by (simp add: newlines_real_newline)
    show ?thesis
    proof (cases "cs = []")
      case T2: True
      then show ?thesis using True n by simp
    next
      case False
      then have "last cs = 0x0A" using "2.prems"(3) by simp
      from "2.IH"(1)[OF True _ False this] n True show ?thesis by simp
    qed
  next
    case False
    from "2.IH"(2)[OF False] "2.prems"(3) False show ?thesis by simp
  qed
next
  case (3 opts outsize ch rest s)
  show ?case
  proof (cases "ch = 0x0A")
    case True
    let ?s = "real_newline opts (flush_check outsize (s\<lparr>newlines := - 1\<rparr>))"
    have n: "newlines ?s = 0" by (simp add: newlines_real_newline)
    show ?thesis
    proof (cases "rest = []")
      case T2: True
      then show ?thesis using True n by simp
    next
      case False
      then have "last rest = 0x0A" using "3.prems" by simp
      from "3.IH"(1)[OF True _ False this] n True show ?thesis by simp
    qed
  next
    case False
    then obtain c cs where r: "rest = c # cs" using "3.prems" by (cases rest) auto
    from "3.IH"(2)[OF False r] "3.prems" r False show ?thesis by simp
  qed
qed


section \<open>Escapes\<close>

lemma quote_char_tabs:
  "quote_char opts c = quote_char (no_options\<lparr>show_tabs := show_tabs opts\<rparr>) c"
  by (simp add: quote_char_def no_options_def)

lemma quote_char_facts:
  "(c \<noteq> 0x0A \<longrightarrow> 0x0A \<notin> set (quote_char opts c))
   \<and> (128 \<le> c \<longrightarrow> quote_char opts c = meta_notation c)"
proof -
  have "list_all (\<lambda>c. (c \<noteq> 0x0A \<longrightarrow> 0x0A \<notin> set (quote_char (no_options\<lparr>show_tabs := True\<rparr>) c)
                                 \<and> 0x0A \<notin> set (quote_char (no_options\<lparr>show_tabs := False\<rparr>) c))
            \<and> (128 \<le> c \<longrightarrow> quote_char (no_options\<lparr>show_tabs := True\<rparr>) c = meta_notation c
                          \<and> quote_char (no_options\<lparr>show_tabs := False\<rparr>) c = meta_notation c))
          (map of_nat [0..<256])"
    by code_simp
  from for_all_bytes[of "\<lambda>c. (c \<noteq> 0x0A \<longrightarrow> 0x0A \<notin> set (quote_char (no_options\<lparr>show_tabs := True\<rparr>) c)
                                 \<and> 0x0A \<notin> set (quote_char (no_options\<lparr>show_tabs := False\<rparr>) c))
            \<and> (128 \<le> c \<longrightarrow> quote_char (no_options\<lparr>show_tabs := True\<rparr>) c = meta_notation c
                          \<and> quote_char (no_options\<lparr>show_tabs := False\<rparr>) c = meta_notation c)", OF this, of c]
  show ?thesis
    by (cases "show_tabs opts") (simp_all add: quote_char_tabs[of opts])
qed

lemma plain_char_no_newline: "c \<noteq> 0x0A \<Longrightarrow> 0x0A \<notin> set (plain_char opts c nxt)"
  by (simp add: plain_char_def)

lemma render_line_no_newline: "0x0A \<notin> set l \<Longrightarrow> 0x0A \<notin> set (render_line opts l)"
  using quote_char_facts by (induction l) (auto simp add: plain_char_no_newline)

lemma cat_single_chunk:
  assumes "0 < outsize" "io \<noteq> Ioctl_error" "c \<noteq> []"
  shows "\<exists>r. cat insize outsize opts g [(io, Data c)] = Some r \<and> ok r
            \<and> concat (writes r) = stream (scan opts g c)
            \<and> globals_after r = globals_of (scan opts g c)"
  using cat_clean[OF assms(1), of "[(io, Data c)]" opts insize g] assms(2,3)
  by (simp add: clean_read_def input_of_def globals_of_def)

text \<open>
  C6, as the code has it. With \<open>show_nonprinting\<close> set, the byte 0x01 is rendered as
  \<^verbatim>\<open>^A\<close> and 0x7F as \<^verbatim>\<open>^?\<close>; the byte 0xC1 is rendered as \<^verbatim>\<open>M-A\<close> (it is 0x81 that gives
  \<^verbatim>\<open>M-^A\<close>), by the rule for the bytes from 128 on, which every such byte follows. The
  rendering is what the engine writes for an input of that single byte when no line
  number is due.
\<close>

theorem escape_rendering:
  assumes "show_nonprinting opts" and "\<not> number opts" and "0 < outsize"
    and "io \<noteq> Ioctl_error" and "ch \<noteq> 0x0A"
  shows "output_of (cat insize outsize opts g [(io, Data [ch])]) = Some (quote_char opts ch)
       \<and> quote_char opts 0x01 = [0x5E, 0x41]
       \<and> quote_char opts 0x7F = [0x5E, 0x3F]
       \<and> quote_char opts 0xC1 = [0x4D, 0x2D, 0x41]
       \<and> quote_char opts 0x81 = [0x4D, 0x2D, 0x5E, 0x41]
       \<and> (128 \<le> ch \<longrightarrow> quote_char opts ch = meta_notation ch)"
proof -
  from cat_single_chunk[OF assms(3,4), of "[ch]" insize opts g]
  obtain r where r: "cat insize outsize opts g [(io, Data [ch])] = Some r"
    "concat (writes r) = stream (scan opts g [ch])" by auto
  have "stream (scan opts g [ch]) = quote_char opts ch"
    using assms(1,2,5) by (simp add: scan_def entry_state_def stream_def store_char_def put_def)
  then have 1: "output_of (cat insize outsize opts g [(io, Data [ch])]) = Some (quote_char opts ch)"
    using r by (simp add: output_of_def)
  have 2: "quote_char opts 0x01 = [0x5E, 0x41]" "quote_char opts 0x7F = [0x5E, 0x3F]"
    "quote_char opts 0xC1 = [0x4D, 0x2D, 0x41]" "quote_char opts 0x81 = [0x4D, 0x2D, 0x5E, 0x41]"
    by (simp_all add: quote_char_def word_le_nat_alt word_less_nat_alt)
  from 1 2 quote_char_facts[of ch opts] show ?thesis by blast
qed

theorem escape_rendering_witness:
  "show_nonprinting (no_options\<lparr>show_nonprinting := True\<rparr>)
   \<and> output_of (cat 4 4 (no_options\<lparr>show_nonprinting := True\<rparr>) initial_globals
        [(Bytes_ready 0, Data [0xC1])]) = Some [0x4D, 0x2D, 0x41]
   \<and> meta_notation 0xC1 = [0x4D, 0x2D, 0x41]"
proof -
  have h: "show_nonprinting (no_options\<lparr>show_nonprinting := True\<rparr>)"
    "\<not> number (no_options\<lparr>show_nonprinting := True\<rparr>)" "0 < (4::nat)"
    "Bytes_ready 0 \<noteq> Ioctl_error" "(0xC1 :: byte) \<noteq> 0x0A"
    by (simp_all add: no_options_def)
  have m: "meta_notation 0xC1 = [0x4D, 0x2D, 0x41]" by code_simp
  from escape_rendering[OF h, of 4 initial_globals] h(1) m show ?thesis by simp
qed

text \<open>C6 as stated fails for the byte 0xC1: the engine writes \<^verbatim>\<open>M-A\<close>, not \<^verbatim>\<open>M-^A\<close>.\<close>

theorem escape_rendering_counterexample:
  "output_of (cat 4 4 (no_options\<lparr>show_nonprinting := True\<rparr>) initial_globals
        [(Bytes_ready 0, Data [0xC1])]) = Some [0x4D, 0x2D, 0x41]
   \<and> output_of (cat 4 4 (no_options\<lparr>show_nonprinting := True\<rparr>) initial_globals
        [(Bytes_ready 0, Data [0xC1])]) \<noteq> Some [0x4D, 0x2D, 0x5E, 0x41]"
  by code_simp


section \<open>The last line of an input without a final newline\<close>

lemma cat_scan:
  assumes "0 < outsize" "list_all clean_read evs" "boundaries_ok opts (map chunk_of evs)"
  shows "\<exists>r. cat insize outsize opts g evs = Some r \<and> ok r
            \<and> concat (writes r) = stream (scan opts g (input_of evs))
            \<and> globals_after r = globals_of (scan opts g (input_of evs))"
  using cat_clean[OF assms, of insize g] by (simp add: globals_of_def)

text \<open>
  The last line of an input that no newline ends. The input is \<open>pre @ l\<close>: a part \<open>pre\<close> that is empty or ends with a newline, and a
  last line \<open>l\<close> that is not empty and has no newline. What \<^verbatim>\<open>cat\<close> writes for it is
  what it writes for \<open>pre\<close>, then the next line number when \<open>number\<close> is set and the
  engine is at the start of a line after \<open>pre\<close> (it is whenever \<open>pre\<close> is not empty), then
  the bytes stored for the bytes of \<open>l\<close>, and nothing after them: no \<^verbatim>\<open>$\<close>, no newline.
  \<^verbatim>\<open>cat\<close> returns true and leaves \<open>newlines2\<close> at -1. The bytes stored for \<open>l\<close> are those the
  scanning loop stores with the sentinel behind the last byte of \<open>l\<close>.
\<close>

theorem final_partial_line:
  assumes "l \<noteq> []" and "0x0A \<notin> set l" and "pre = [] \<or> last pre = 0x0A"
    and "- 1 \<le> newlines2 g"
    and "0 < outsize" and "list_all clean_read evs"
    and "boundaries_ok opts (map chunk_of evs)" and "input_of evs = pre @ l"
    and "0 < outsize0" and "list_all clean_read evs0"
    and "boundaries_ok opts (map chunk_of evs0)" and "input_of evs0 = pre"
  shows "\<exists>r r0. cat insize outsize opts g evs = Some r
           \<and> cat insize0 outsize0 opts g evs0 = Some r0
           \<and> ok r
           \<and> concat (writes r)
               = concat (writes r0)
                 @ (if number opts \<and> 0 \<le> newlines2 (globals_after r0)
                    then line_num_string (next_line_num (the_counter (globals_after r0)))
                    else [])
                 @ render_line opts l
           \<and> (if pre = [] then newlines2 (globals_after r0) = newlines2 g
               else 0 \<le> newlines2 (globals_after r0))
           \<and> 0x0A \<notin> set (render_line opts l)
           \<and> newlines2 (globals_after r) = - 1"
proof -
  from cat_scan[OF assms(5,6,7), of insize g] assms(8)
  obtain r where r: "cat insize outsize opts g evs = Some r" "ok r"
    "concat (writes r) = stream (scan opts g (pre @ l))"
    "globals_after r = globals_of (scan opts g (pre @ l))" by auto
  from cat_scan[OF assms(9,10,11), of insize0 g] assms(12)
  obtain r0 where r0: "cat insize0 outsize0 opts g evs0 = Some r0"
    "concat (writes r0) = stream (scan opts g pre)"
    "globals_after r0 = globals_of (scan opts g pre)" by auto
  have "\<not> splits_cr opts pre l" using assms(3) by (auto simp add: splits_cr_def)
  from split_loops(1)[OF this]
  have sc: "scan opts g (pre @ l) = fetch_line opts 1 l (scan opts g pre)"
    by (simp add: scan_def)
  have st: "stream (scan opts g (pre @ l))
      = stream (scan opts g pre)
        @ (if 0 \<le> newlines (scan opts g pre) \<and> number opts
           then line_num_string (next_line_num (counter (scan opts g pre))) else [])
        @ render_line opts l"
    unfolding sc by (rule fetch_line_partial(1)[OF assms(2,1)])
  have nl: "newlines (scan opts g (pre @ l)) = - 1"
    unfolding sc by (rule fetch_line_partial(3)[OF assms(2,1)])
  have start: "if pre = [] then newlines (scan opts g pre) = newlines2 g
               else 0 \<le> newlines (scan opts g pre)"
  proof (cases "pre = []")
    case True
    then show ?thesis by (simp add: scan_def entry_state_def)
  next
    case False
    then have "last pre = 0x0A" using assms(3) by simp
    from newlines_after_newline(1)[OF _ False this, of "entry_state g" opts 1] assms(4) False
    show ?thesis by (simp add: scan_def entry_state_def)
  qed
  have w: "concat (writes r)
               = concat (writes r0)
                 @ (if number opts \<and> 0 \<le> newlines2 (globals_after r0)
                    then line_num_string (next_line_num (the_counter (globals_after r0)))
                    else [])
                 @ render_line opts l"
    using r(3) r0(2,3) st by (auto simp add: globals_of_def)
  have s2: "if pre = [] then newlines2 (globals_after r0) = newlines2 g
               else 0 \<le> newlines2 (globals_after r0)"
    using start r0(3) by (cases "pre = []") (simp_all add: globals_of_def)
  have n2: "newlines2 (globals_after r) = - 1" using nl r(4) by (simp add: globals_of_def)
  from r(1,2) r0(1) w s2 n2 render_line_no_newline[OF assms(2), of opts]
  show ?thesis by blast
qed

theorem final_partial_line_witness:
  "[0x62 :: byte] \<noteq> [] \<and> 0x0A \<notin> set [0x62 :: byte] \<and> last [0x61, 0x0A :: byte] = 0x0A
   \<and> - 1 \<le> newlines2 initial_globals
   \<and> list_all clean_read [(Bytes_ready 0, Data [0x61, 0x0A, 0x62])]
   \<and> boundaries_ok (no_options\<lparr>number := True, show_ends := True\<rparr>)
        (map chunk_of [(Bytes_ready 0, Data [0x61, 0x0A, 0x62])])
   \<and> input_of [(Bytes_ready 0, Data [0x61, 0x0A, 0x62])] = [0x61, 0x0A] @ [0x62]
   \<and> output_of (cat 8 8 (no_options\<lparr>number := True, show_ends := True\<rparr>) initial_globals
        [(Bytes_ready 0, Data [0x61, 0x0A])])
       = Some [0x20, 0x20, 0x20, 0x20, 0x20, 0x31, 0x09, 0x61, 0x24, 0x0A]
   \<and> output_of (cat 8 8 (no_options\<lparr>number := True, show_ends := True\<rparr>) initial_globals
        [(Bytes_ready 0, Data [0x61, 0x0A, 0x62])])
       = Some ([0x20, 0x20, 0x20, 0x20, 0x20, 0x31, 0x09, 0x61, 0x24, 0x0A]
               @ [0x20, 0x20, 0x20, 0x20, 0x20, 0x32, 0x09] @ [0x62])"
proof -
  let ?opts = "no_options\<lparr>number := True, show_ends := True\<rparr>"
  let ?evs = "[(Bytes_ready 0, Data [0x61, 0x0A, 0x62 :: byte])]"
  let ?pevs = "[(Bytes_ready 0, Data [0x61, 0x0A :: byte])]"
  have h1: "[0x62 :: byte] \<noteq> []" and h2: "0x0A \<notin> set [0x62 :: byte]"
    and h3: "[0x61, 0x0A :: byte] = [] \<or> last [0x61, 0x0A :: byte] = 0x0A"
    and h4: "- 1 \<le> newlines2 initial_globals" and h5: "0 < (8 :: nat)"
    and h6: "list_all clean_read ?evs" and h7: "boundaries_ok ?opts (map chunk_of ?evs)"
    and h8: "input_of ?evs = [0x61, 0x0A] @ [0x62]"
    and h10: "list_all clean_read ?pevs" and h11: "boundaries_ok ?opts (map chunk_of ?pevs)"
    and h12: "input_of ?pevs = [0x61, 0x0A]"
    by (simp_all add: initial_globals_def clean_read_def input_of_def)
  from final_partial_line[OF h1 h2 h3 h4 h5 h6 h7 h8 h5 h10 h11 h12, of 8 8]
  obtain r r0 where r: "cat 8 8 ?opts initial_globals ?evs = Some r"
      "cat 8 8 ?opts initial_globals ?pevs = Some r0"
      "concat (writes r)
               = concat (writes r0)
                 @ (if number ?opts \<and> 0 \<le> newlines2 (globals_after r0)
                    then line_num_string (next_line_num (the_counter (globals_after r0)))
                    else [])
                 @ render_line ?opts [0x62]"
    by blast
  have e0: "output_of (cat 8 8 ?opts initial_globals ?pevs)
       = Some [0x20, 0x20, 0x20, 0x20, 0x20, 0x31, 0x09, 0x61, 0x24, 0x0A]"
    "map_option globals_after (cat 8 8 ?opts initial_globals ?pevs)
       = Some \<lparr>the_counter = next_line_num initial_counter, newlines2 = 0\<rparr>"
    by code_simp+
  have n2: "line_num_string (next_line_num (next_line_num initial_counter))
      = [0x20, 0x20, 0x20, 0x20, 0x20, 0x32, 0x09]"
    by code_simp
  have rl: "render_line ?opts [0x62] = [0x62]" by code_simp
  have nb: "number ?opts" by (simp add: no_options_def)
  have o0: "output_of (cat 8 8 ?opts initial_globals ?pevs)
       = Some [0x20, 0x20, 0x20, 0x20, 0x20, 0x31, 0x09, 0x61, 0x24, 0x0A]"
    by (rule e0(1))
  have "concat (writes r0) = [0x20, 0x20, 0x20, 0x20, 0x20, 0x31, 0x09, 0x61, 0x24, 0x0A]"
    "globals_after r0 = \<lparr>the_counter = next_line_num initial_counter, newlines2 = 0\<rparr>"
    using r(2) e0 by (simp_all add: output_of_def)
  then have "concat (writes r) = [0x20, 0x20, 0x20, 0x20, 0x20, 0x31, 0x09, 0x61, 0x24, 0x0A]
               @ [0x20, 0x20, 0x20, 0x20, 0x20, 0x32, 0x09] @ [0x62]"
    using r(3) n2 rl nb by simp
  then have o: "output_of (cat 8 8 ?opts initial_globals ?evs)
       = Some ([0x20, 0x20, 0x20, 0x20, 0x20, 0x31, 0x09, 0x61, 0x24, 0x0A]
               @ [0x20, 0x20, 0x20, 0x20, 0x20, 0x32, 0x09] @ [0x62])"
    using r(1) by (simp add: output_of_def)
  from h1 h2 h4 h6 h7 h8 o0 o show ?thesis by simp
qed

text \<open>
  C10 fails on the code, with \<open>show_ends\<close> set and \<open>show_nonprinting\<close> unset, for a last line
  that ends with a carriage return. The input \<^verbatim>\<open>61 0D\<close> has no newline; its carriage return
  is the last byte read, the byte behind it is the sentinel at \<^verbatim>\<open>*eob\<close>, and the test
  \<^verbatim>\<open>ch == '\r' && *bpin == '\n' && show_ends\<close> takes the sentinel for a newline of the input:
  \<^verbatim>\<open>61 5E 4D\<close> is written, the carriage return shown as \<^verbatim>\<open>^M\<close>. A carriage return that other
  bytes of the line follow is written as it is (\<^verbatim>\<open>61 0D 58\<close> is written unchanged), and the
  one that a newline of the input follows is shown as \<^verbatim>\<open>^M\<close> before \<^verbatim>\<open>$\<close> and the newline.
\<close>

theorem final_cr_failing_input:
  "output_of (cat 8 8 (no_options\<lparr>show_ends := True\<rparr>) initial_globals
       [(Bytes_ready 0, Data [0x61, 0x0D])])
     = Some [0x61, 0x5E, 0x4D]
   \<and> output_of (cat 8 8 (no_options\<lparr>show_ends := True\<rparr>) initial_globals
       [(Bytes_ready 0, Data [0x61, 0x0D, 0x58])])
     = Some [0x61, 0x0D, 0x58]
   \<and> output_of (cat 8 8 (no_options\<lparr>show_ends := True\<rparr>) initial_globals
       [(Bytes_ready 0, Data [0x61, 0x0D, 0x0A])])
     = Some [0x61, 0x5E, 0x4D, 0x24, 0x0A]"
  by code_simp


section \<open>Squeezing empty lines\<close>

lemma squeezed_newlines:
  assumes "squeeze_blank opts" "1 \<le> newlines s"
  shows "stream (fetch_line opts outsize (replicate k 0x0A) s) = stream s
       \<and> counter (fetch_line opts outsize (replicate k 0x0A) s) = counter s
       \<and> 1 \<le> newlines (fetch_line opts outsize (replicate k 0x0A) s)"
  using assms(2)
proof (induction k arbitrary: s)
  case 0
  then show ?case by simp
next
  case (Suc k)
  let ?s = "real_newline opts (flush_check outsize s)"
  have "stream ?s = stream s" "counter ?s = counter s" "1 \<le> newlines ?s"
    using assms(1) Suc.prems
    by (simp_all add: stream_real_newline counter_real_newline newlines_real_newline)
  with Suc.IH[of ?s] show ?case by simp
qed

lemma entry_state_simps [simp]:
  "stream (entry_state g) = []" "counter (entry_state g) = the_counter g"
  "newlines (entry_state g) = newlines2 g"
  by (simp_all add: entry_state_def stream_def)

lemma scan_blank_lines:
  assumes "squeeze_blank opts" "newlines2 g = 0" "1 \<le> k"
  shows "stream (scan opts g (replicate k 0x0A)) = blank_line opts g"
proof -
  obtain j where k: "k = Suc j" using assms(3) by (cases k) auto
  let ?s = "real_newline opts (flush_check 1 (entry_state g))"
  have s: "stream ?s = blank_line opts g" "1 \<le> newlines ?s"
    using assms(2)
    by (simp_all add: stream_real_newline newlines_real_newline blank_line_def)
  from squeezed_newlines[OF assms(1) s(2), of 1 j] s(1) show ?thesis
    unfolding k by (simp add: scan_def)
qed

lemma chunks_without_cr:
  assumes "0x0D \<notin> set (input_of evs)"
  shows "boundaries_ok opts (map chunk_of evs)"
proof -
  have "list_all (\<lambda>c. 0x0D \<notin> set c) (map chunk_of evs)"
    using assms by (auto simp add: input_of_def list_all_iff)
  then show ?thesis by (rule no_cr_boundaries_ok)
qed

lemma cat_twice_scan:
  assumes "0 < outsize" "list_all clean_read evs1" "list_all clean_read evs2"
    and "boundaries_ok opts (map chunk_of evs1)" "boundaries_ok opts (map chunk_of evs2)"
    and "\<not> splits_cr opts (input_of evs1) (input_of evs2)"
  shows "\<exists>r1 r2. cat_twice insize outsize opts g evs1 evs2 = Some (r1, r2) \<and> ok r1 \<and> ok r2
           \<and> concat (writes r1) @ concat (writes r2)
               = stream (scan opts g (input_of evs1 @ input_of evs2))
           \<and> globals_after r2 = globals_of (scan opts g (input_of evs1 @ input_of evs2))"
proof -
  from cat_scan[OF assms(1,2,4), of insize g]
  obtain r1 where r1: "cat insize outsize opts g evs1 = Some r1" "ok r1"
    "concat (writes r1) = stream (scan opts g (input_of evs1))"
    "globals_after r1 = globals_of (scan opts g (input_of evs1))" by blast
  from cat_scan[OF assms(1,3,5), of insize "globals_after r1"]
  obtain r2 where r2: "cat insize outsize opts (globals_after r1) evs2 = Some r2" "ok r2"
    "concat (writes r2) = stream (scan opts (globals_after r1) (input_of evs2))"
    "globals_after r2 = globals_of (scan opts (globals_after r1) (input_of evs2))" by blast
  have "cat_twice insize outsize opts g evs1 evs2 = Some (r1, r2)"
    using r1(1) r2(1) by (simp add: cat_twice_def)
  moreover have "concat (writes r1) @ concat (writes r2)
               = stream (scan opts g (input_of evs1 @ input_of evs2))"
    using scan_append(1)[OF assms(6), of g] r1(3,4) r2(3) by simp
  moreover have "globals_after r2 = globals_of (scan opts g (input_of evs1 @ input_of evs2))"
    using scan_append(2)[OF assms(6), of g] r1(4) r2(4) by simp
  ultimately show ?thesis using r1(2) r2(2) by blast
qed

text \<open>
  C4. With \<open>squeeze_blank\<close> set and the engine at the start of a line after a line that
  was not empty (\<open>newlines2 = 0\<close>, as when the process starts), an input of \<open>k\<close> newlines,
  \<open>k\<close> at least 1, delivered as two files one after the other in any chunks (the second
  file may be empty: then it is one file), gives the output of one empty line: the line
  number when empty lines are numbered, the \<^verbatim>\<open>$\<close> when \<open>show_ends\<close> is set, and one newline.
\<close>

theorem squeeze_blank_run:
  assumes "squeeze_blank opts" and "newlines2 g = 0" and "1 \<le> k" and "0 < outsize"
    and "list_all clean_read evs1" and "list_all clean_read evs2"
    and "input_of evs1 @ input_of evs2 = replicate k 0x0A"
  shows "\<exists>r1 r2. cat_twice insize outsize opts g evs1 evs2 = Some (r1, r2) \<and> ok r1 \<and> ok r2
           \<and> concat (writes r1) @ concat (writes r2) = blank_line opts g"
proof -
  have "0x0D \<notin> set (input_of evs1 @ input_of evs2)" unfolding assms(7) by simp
  then have cr: "0x0D \<notin> set (input_of evs1)" "0x0D \<notin> set (input_of evs2)" by simp_all
  have "input_of evs1 \<noteq> [] \<Longrightarrow> last (input_of evs1) \<noteq> 0x0D"
    using cr(1) last_in_set[of "input_of evs1"] by metis
  then have sp: "\<not> splits_cr opts (input_of evs1) (input_of evs2)"
    by (auto simp add: splits_cr_def)
  from cat_twice_scan[OF assms(4,5,6) chunks_without_cr[OF cr(1)] chunks_without_cr[OF cr(2)] sp,
      of insize g]
  show ?thesis
    unfolding assms(7) scan_blank_lines[OF assms(1,2,3)] by blast
qed

theorem squeeze_blank_run_witness:
  "squeeze_blank (no_options\<lparr>squeeze_blank := True\<rparr>) \<and> newlines2 initial_globals = 0
   \<and> list_all clean_read [(Bytes_ready 0, Data [0x0A, 0x0A]), (Bytes_ready 3, Data [0x0A])]
   \<and> list_all clean_read [(Not_supported, Data [0x0A, 0x0A])]
   \<and> input_of [(Bytes_ready 0, Data [0x0A, 0x0A]), (Bytes_ready 3, Data [0x0A])]
       @ input_of [(Not_supported, Data [0x0A, 0x0A])] = replicate 5 0x0A
   \<and> outputs_of (cat_twice 4 4 (no_options\<lparr>squeeze_blank := True\<rparr>) initial_globals
         [(Bytes_ready 0, Data [0x0A, 0x0A]), (Bytes_ready 3, Data [0x0A])]
         [(Not_supported, Data [0x0A, 0x0A])]) = Some ([0x0A], [])"
proof -
  let ?opts = "no_options\<lparr>squeeze_blank := True\<rparr>"
  let ?a = "[(Bytes_ready 0, Data [0x0A, 0x0A :: byte]), (Bytes_ready 3, Data [0x0A])]"
  let ?b = "[(Not_supported, Data [0x0A, 0x0A :: byte])]"
  have h1: "squeeze_blank ?opts" and h2: "newlines2 initial_globals = 0"
    and h3: "1 \<le> (5 :: nat)" and h4: "0 < (4 :: nat)"
    and h5: "list_all clean_read ?a" and h6: "list_all clean_read ?b"
    and h7: "input_of ?a @ input_of ?b = replicate 5 0x0A"
    by (simp_all add: no_options_def initial_globals_def clean_read_def input_of_def
          numeral_eq_Suc)
  from squeeze_blank_run[OF h1 h2 h3 h4 h5 h6 h7, of 4]
  obtain r1 r2 where r: "cat_twice 4 4 ?opts initial_globals ?a ?b = Some (r1, r2)"
    "concat (writes r1) @ concat (writes r2) = blank_line ?opts initial_globals" by blast
  have bl: "blank_line ?opts initial_globals = [0x0A]" by code_simp
  have e: "outputs_of (cat_twice 4 4 ?opts initial_globals ?a ?b) = Some ([0x0A], [])"
    by code_simp
  from r bl e h1 h2 h5 h6 h7 show ?thesis by simp
qed


section \<open>Two runs in succession\<close>

lemma same_buffers_flush_check:
  "same_buffers s t \<Longrightarrow> same_buffers (flush_check outsize s) (flush_check outsize t)"
  by (simp add: same_buffers_def flush_check_def split: prod.splits)

lemma same_buffers_write_pending:
  "same_buffers s t \<Longrightarrow> same_buffers (write_pending s) (write_pending t)"
  by (simp add: same_buffers_def write_pending_def)

lemma same_buffers_put: "same_buffers s t \<Longrightarrow> same_buffers (put bs s) (put bs t)"
  by (simp add: same_buffers_def put_def)

lemma same_buffers_newlines:
  "same_buffers s t \<Longrightarrow> same_buffers (s\<lparr>newlines := m\<rparr>) (t\<lparr>newlines := n\<rparr>)"
  by (simp add: same_buffers_def)

lemma same_buffers_real_newline:
  assumes "\<not> number opts" "\<not> squeeze_blank opts" "same_buffers s t"
  shows "same_buffers (real_newline opts s) (real_newline opts t)"
  using assms by (simp add: real_newline_def Let_def same_buffers_put same_buffers_newlines)

lemma same_buffers_store_char:
  "same_buffers s t \<Longrightarrow> same_buffers (store_char opts ch rest s) (store_char opts ch rest t)"
  by (simp add: store_char_def same_buffers_put)

lemma same_buffers_loops:
  "\<not> number opts \<Longrightarrow> \<not> squeeze_blank opts \<Longrightarrow> same_buffers s t \<Longrightarrow>
     same_buffers (fetch_line opts outsize c s) (fetch_line opts outsize c t)"
  "\<not> number opts \<Longrightarrow> \<not> squeeze_blank opts \<Longrightarrow> same_buffers s t \<Longrightarrow>
     same_buffers (chars_loop opts outsize ch rest s) (chars_loop opts outsize ch rest t)"
proof (induction opts outsize c s and opts outsize ch rest s arbitrary: t and t
    rule: fetch_line_chars_loop.induct)
  case (1 opts outsize s)
  then show ?case by simp
next
  case (2 opts outsize c cs s)
  show ?case
  proof (cases "c = 0x0A")
    case True
    have "same_buffers (real_newline opts (flush_check outsize s))
                       (real_newline opts (flush_check outsize t))"
      using "2.prems" by (intro same_buffers_real_newline same_buffers_flush_check)
    from "2.IH"(1)[OF True "2.prems"(1,2) this] True show ?thesis by simp
  next
    case False
    from "2.IH"(2)[OF False "2.prems"(1,2), of t] "2.prems" False show ?thesis by simp
  qed
next
  case (3 opts outsize ch rest s)
  show ?case
  proof (cases "ch = 0x0A")
    case True
    have "same_buffers (real_newline opts (flush_check outsize (s\<lparr>newlines := - 1\<rparr>)))
                       (real_newline opts (flush_check outsize (t\<lparr>newlines := - 1\<rparr>)))"
      using "3.prems"
      by (intro same_buffers_real_newline same_buffers_flush_check same_buffers_newlines)
    from "3.IH"(1)[OF True "3.prems"(1,2) this] True show ?thesis by simp
  next
    case False
    have st: "same_buffers (store_char opts ch rest s) (store_char opts ch rest t)"
      using "3.prems"(3) by (rule same_buffers_store_char)
    show ?thesis
    proof (cases rest)
      case Nil
      then show ?thesis using False st by (simp add: same_buffers_newlines)
    next
      case (Cons c cs)
      from "3.IH"(2)[OF False Cons "3.prems"(1,2) st] Cons False show ?thesis by simp
    qed
  qed
qed

lemma same_buffers_cat_loop:
  assumes "\<not> number opts" "\<not> squeeze_blank opts" "same_buffers s t"
  shows "fst (cat_loop opts outsize f evs s) = fst (cat_loop opts outsize f evs t)
       \<and> same_buffers (snd (cat_loop opts outsize f evs s)) (snd (cat_loop opts outsize f evs t))"
  using assms(3)
proof (induction evs arbitrary: s t f)
  case Nil
  then show ?case by (simp add: same_buffers_write_pending same_buffers_flush_check)
next
  case (Cons ev evs)
  obtain io rd where ev: "ev = (io, rd)" by (cases ev)
  define f' where "f' = (f \<and> io \<noteq> Not_supported)"
  define pending where "pending = (f' \<and> (case io of Bytes_ready n \<Rightarrow> n \<noteq> 0 | _ \<Rightarrow> False))"
  define s2 where "s2 = (if pending then flush_check outsize s else write_pending (flush_check outsize s))"
  define t2 where "t2 = (if pending then flush_check outsize t else write_pending (flush_check outsize t))"
  have s1: "same_buffers (flush_check outsize s) (flush_check outsize t)"
    using Cons.prems by (rule same_buffers_flush_check)
  then have s2: "same_buffers s2 t2" by (simp add: s2_def t2_def same_buffers_write_pending)
  then have w2: "same_buffers (write_pending s2) (write_pending t2)"
    by (rule same_buffers_write_pending)
  show ?case
  proof (cases "f \<and> io = Ioctl_error")
    case True
    then show ?thesis using ev s1 by simp
  next
    case False
    have eq: "cat_loop opts outsize f (ev # evs) u =
        (case rd of
           Read_error \<Rightarrow> (False, write_pending (if pending then flush_check outsize u else write_pending (flush_check outsize u)))
         | Data c \<Rightarrow>
            if c = [] then (True, write_pending (if pending then flush_check outsize u else write_pending (flush_check outsize u)))
            else cat_loop opts outsize f' evs (fetch_line opts outsize c (if pending then flush_check outsize u else write_pending (flush_check outsize u))))"
      for u
      using False unfolding ev f'_def pending_def by (auto simp add: Let_def)
    show ?thesis
    proof (cases rd)
      case Read_error
      then show ?thesis using w2 unfolding eq s2_def[symmetric] t2_def[symmetric] by simp
    next
      case (Data c)
      show ?thesis
      proof (cases "c = []")
        case True
        then show ?thesis using Data w2 unfolding eq s2_def[symmetric] t2_def[symmetric] by simp
      next
        case F2: False
        have "same_buffers (fetch_line opts outsize c s2) (fetch_line opts outsize c t2)"
          using assms(1,2) s2 by (rule same_buffers_loops(1))
        from Cons.IH[OF this, of f'] show ?thesis
          using Data F2 unfolding eq s2_def[symmetric] t2_def[symmetric] by simp
      qed
    qed
  qed
qed

text \<open>
  C5, as the code has it. The line counter and \<open>newlines2\<close> are carried from one run of
  \<^verbatim>\<open>cat\<close> to the next, so a second run over the same input numbers on and squeezes on.
  When neither \<open>number\<close> nor \<open>squeeze_blank\<close> is set, nothing that is carried over reaches
  the output: for every input (every sequence of reads, failing ones included) the
  second run returns the same value and makes the same writes as the first.
\<close>

theorem second_run_same_output:
  assumes "\<not> number opts" and "\<not> squeeze_blank opts" and "0 < outsize"
  shows "\<exists>r1 r2. cat_twice insize outsize opts g evs evs = Some (r1, r2)
           \<and> writes r2 = writes r1 \<and> ok r2 = ok r1"
proof -
  let ?s = "\<lambda>g. \<lparr>counter = the_counter g, newlines = newlines2 g,
                    outbuf = [], written = [], peak = 0\<rparr>"
  obtain r1 where r1: "cat insize outsize opts g evs = Some r1"
    using assms(3) by (cases "cat_loop opts outsize True evs (?s g)") (simp add: cat_def)
  obtain r2 where r2: "cat insize outsize opts (globals_after r1) evs = Some r2"
    using assms(3)
    by (cases "cat_loop opts outsize True evs (?s (globals_after r1))") (simp add: cat_def)
  have "same_buffers (?s (globals_after r1)) (?s g)" by (simp add: same_buffers_def)
  from same_buffers_cat_loop[OF assms(1,2) this, of outsize True evs]
  have "writes r2 = writes r1 \<and> ok r2 = ok r1"
    using r1 r2 assms(3) by (auto simp add: cat_def same_buffers_def split: prod.splits)
  then show ?thesis using r1 r2 by (simp add: cat_twice_def)
qed

theorem second_run_same_output_witness:
  "\<not> number (no_options\<lparr>show_ends := True\<rparr>) \<and> \<not> squeeze_blank (no_options\<lparr>show_ends := True\<rparr>)
   \<and> outputs_of (cat_twice 4 4 (no_options\<lparr>show_ends := True\<rparr>) initial_globals
        [(Bytes_ready 0, Data [0x0A, 0x0A, 0x61])] [(Bytes_ready 0, Data [0x0A, 0x0A, 0x61])])
       = Some ([0x24, 0x0A, 0x24, 0x0A, 0x61], [0x24, 0x0A, 0x24, 0x0A, 0x61])"
proof -
  let ?opts = "no_options\<lparr>show_ends := True\<rparr>"
  let ?evs = "[(Bytes_ready 0, Data [0x0A, 0x0A, 0x61 :: byte])]"
  have h1: "\<not> number ?opts" and h2: "\<not> squeeze_blank ?opts" and h3: "0 < (4::nat)"
    by (simp_all add: no_options_def)
  from second_run_same_output[OF h1 h2 h3, of 4 initial_globals ?evs]
  obtain r1 r2 where r: "cat_twice 4 4 ?opts initial_globals ?evs ?evs = Some (r1, r2)"
    "writes r2 = writes r1" by blast
  have e: "map_option (\<lambda>(r1, r2). concat (writes r1)) (cat_twice 4 4 ?opts initial_globals ?evs ?evs)
      = Some [0x24, 0x0A, 0x24, 0x0A, 0x61]"
    by code_simp
  from r e have "outputs_of (cat_twice 4 4 ?opts initial_globals ?evs ?evs)
       = Some ([0x24, 0x0A, 0x24, 0x0A, 0x61], [0x24, 0x0A, 0x24, 0x0A, 0x61])"
    by (simp add: outputs_of_def)
  with h1 h2 show ?thesis by simp
qed

text \<open>
  C5 as stated fails. With \<open>number\<close> set, the second run over the line \<^verbatim>\<open>a\<close> prints the
  number 2 where the first printed 1; with \<open>squeeze_blank\<close> set, the second run over a
  single newline prints nothing where the first printed the newline.
\<close>

theorem second_run_counterexample:
  "outputs_of (cat_twice 8 8 (no_options\<lparr>number := True\<rparr>) initial_globals
      [(Bytes_ready 0, Data [0x61, 0x0A])] [(Bytes_ready 0, Data [0x61, 0x0A])])
     = Some ([0x20, 0x20, 0x20, 0x20, 0x20, 0x31, 0x09, 0x61, 0x0A],
             [0x20, 0x20, 0x20, 0x20, 0x20, 0x32, 0x09, 0x61, 0x0A])
   \<and> outputs_of (cat_twice 8 8 (no_options\<lparr>squeeze_blank := True\<rparr>) initial_globals
      [(Bytes_ready 0, Data [0x0A])] [(Bytes_ready 0, Data [0x0A])])
     = Some ([0x0A], [])"
  by code_simp


section \<open>Line numbers\<close>

lemma stream_real_newline_line_end:
  "stream (real_newline opts s)
     = stream s @
       (if 1 \<le> newlines s \<and> squeeze_blank opts then []
        else (if 0 \<le> newlines s \<and> number opts \<and> \<not> number_nonblank opts
              then line_num_string (next_line_num (counter s)) else [])
             @ line_end opts)"
  by (simp add: stream_real_newline line_end_def)

lemma numbered_line:
  assumes "number opts" "\<not> number_nonblank opts" "\<not> squeeze_blank opts"
    and "0x0A \<notin> set l" "0 \<le> newlines s"
  shows "stream (real_newline opts (flush_check outsize (fetch_line opts outsize l s)))
           = stream s @ line_num_string (next_line_num (counter s)) @ render_line opts l
             @ line_end opts"
    and "counter (real_newline opts (flush_check outsize (fetch_line opts outsize l s)))
           = next_line_num (counter s)"
    and "0 \<le> newlines (real_newline opts (flush_check outsize (fetch_line opts outsize l s)))"
proof -
  let ?s = "real_newline opts (flush_check outsize (fetch_line opts outsize l s))"
  have "stream ?s = stream s @ line_num_string (next_line_num (counter s)) @ render_line opts l
             @ line_end opts
        \<and> counter ?s = next_line_num (counter s) \<and> 0 \<le> newlines ?s"
  proof (cases "l = []")
    case True
    then show ?thesis using assms
      by (simp add: stream_real_newline_line_end counter_real_newline newlines_real_newline)
  next
    case False
    from fetch_line_partial[OF assms(4) False, of opts outsize s] assms(1,2,3,5)
    show ?thesis
      by (simp add: stream_real_newline_line_end counter_real_newline newlines_real_newline)
  qed
  then show "stream ?s = stream s @ line_num_string (next_line_num (counter s)) @ render_line opts l
             @ line_end opts"
    and "counter ?s = next_line_num (counter s)" and "0 \<le> newlines ?s" by simp_all
qed

lemma nonblank_line:
  assumes "number opts" "l \<noteq> []" "0x0A \<notin> set l" "0 \<le> newlines s"
  shows "stream (real_newline opts (flush_check outsize (fetch_line opts outsize l s)))
           = stream s @ line_num_string (next_line_num (counter s)) @ render_line opts l
             @ line_end opts"
    and "counter (real_newline opts (flush_check outsize (fetch_line opts outsize l s)))
           = next_line_num (counter s)"
    and "newlines (real_newline opts (flush_check outsize (fetch_line opts outsize l s))) = 0"
  using fetch_line_partial[OF assms(3,2), of opts outsize s] assms(1,4)
  by (simp_all add: stream_real_newline_line_end counter_real_newline newlines_real_newline)

lemma blank_after_nonblank:
  assumes "number_nonblank opts" "newlines s = 0"
  shows "stream (real_newline opts (flush_check outsize s)) = stream s @ line_end opts"
    and "counter (real_newline opts (flush_check outsize s)) = counter s"
    and "newlines (real_newline opts (flush_check outsize s)) = 1"
  using assms
  by (simp_all add: stream_real_newline_line_end counter_real_newline newlines_real_newline)

lemma first_numbers:
  "line_num_string (next_line_num initial_counter) = number_field 0x31"
  "line_num_string (next_line_num (next_line_num initial_counter)) = number_field 0x32"
  "line_num_string (next_line_num (next_line_num (next_line_num initial_counter)))
     = number_field 0x33"
  "line_num_string (next_line_num (next_line_num (next_line_num (next_line_num initial_counter))))
     = number_field 0x34"
  "line_num_string (next_line_num (next_line_num (next_line_num (next_line_num
     (next_line_num initial_counter))))) = number_field 0x35"
  by code_simp+

lemma scan_five_numbered:
  assumes "number opts" "\<not> number_nonblank opts" "\<not> squeeze_blank opts"
    and "0x0A \<notin> set l1" "0x0A \<notin> set l2" "0x0A \<notin> set l3" "0x0A \<notin> set l4" "0x0A \<notin> set l5"
  shows "stream (scan opts initial_globals
            (l1 @ [0x0A] @ l2 @ [0x0A] @ l3 @ [0x0A] @ l4 @ [0x0A] @ l5 @ [0x0A]))
         = number_field 0x31 @ render_line opts l1 @ line_end opts
           @ number_field 0x32 @ render_line opts l2 @ line_end opts
           @ number_field 0x33 @ render_line opts l3 @ line_end opts
           @ number_field 0x34 @ render_line opts l4 @ line_end opts
           @ number_field 0x35 @ render_line opts l5 @ line_end opts"
proof -
  define s0 where "s0 = entry_state initial_globals"
  define s1 where "s1 = real_newline opts (flush_check 1 (fetch_line opts 1 l1 s0))"
  define s2 where "s2 = real_newline opts (flush_check 1 (fetch_line opts 1 l2 s1))"
  define s3 where "s3 = real_newline opts (flush_check 1 (fetch_line opts 1 l3 s2))"
  define s4 where "s4 = real_newline opts (flush_check 1 (fetch_line opts 1 l4 s3))"
  define s5 where "s5 = real_newline opts (flush_check 1 (fetch_line opts 1 l5 s4))"
  have 0: "stream s0 = []" "counter s0 = initial_counter" "0 \<le> newlines s0"
    by (simp_all add: s0_def initial_globals_def)
  note step = numbered_line[OF assms(1,2,3)]
  have 1: "stream s1 = number_field 0x31 @ render_line opts l1 @ line_end opts"
    "counter s1 = next_line_num initial_counter" "0 \<le> newlines s1"
    using step[OF assms(4) 0(3), of 1] 0(1,2) by (simp_all add: s1_def first_numbers)
  have 2: "stream s2 = stream s1 @ number_field 0x32 @ render_line opts l2 @ line_end opts"
    "counter s2 = next_line_num (next_line_num initial_counter)" "0 \<le> newlines s2"
    using step[OF assms(5) 1(3), of 1] 1(2) by (simp_all add: s2_def first_numbers)
  have 3: "stream s3 = stream s2 @ number_field 0x33 @ render_line opts l3 @ line_end opts"
    "counter s3 = next_line_num (next_line_num (next_line_num initial_counter))"
    "0 \<le> newlines s3"
    using step[OF assms(6) 2(3), of 1] 2(2) by (simp_all add: s3_def first_numbers)
  have 4: "stream s4 = stream s3 @ number_field 0x34 @ render_line opts l4 @ line_end opts"
    "counter s4 = next_line_num (next_line_num (next_line_num (next_line_num initial_counter)))"
    "0 \<le> newlines s4"
    using step[OF assms(7) 3(3), of 1] 3(2) by (simp_all add: s4_def first_numbers)
  have 5: "stream s5 = stream s4 @ number_field 0x35 @ render_line opts l5 @ line_end opts"
    using step[OF assms(8) 4(3), of 1] 4(2) by (simp_all add: s5_def first_numbers)
  have "scan opts initial_globals
            (l1 @ [0x0A] @ l2 @ [0x0A] @ l3 @ [0x0A] @ l4 @ [0x0A] @ l5 @ [0x0A]) = s5"
    by (simp add: scan_def fetch_line_after_line s0_def s1_def s2_def s3_def s4_def s5_def)
  then show ?thesis using 1(1) 2(1) 3(1) 4(1) 5 by simp
qed

lemma scan_nonblank_numbered:
  assumes "number opts" "number_nonblank opts"
    and "0x0A \<notin> set l1" "0x0A \<notin> set l3" "0x0A \<notin> set l5"
    and "l1 \<noteq> []" "l3 \<noteq> []" "l5 \<noteq> []"
  shows "stream (scan opts initial_globals
            (l1 @ [0x0A] @ [0x0A] @ l3 @ [0x0A] @ [0x0A] @ l5 @ [0x0A]))
         = number_field 0x31 @ render_line opts l1 @ line_end opts
           @ line_end opts
           @ number_field 0x32 @ render_line opts l3 @ line_end opts
           @ line_end opts
           @ number_field 0x33 @ render_line opts l5 @ line_end opts"
proof -
  define s0 where "s0 = entry_state initial_globals"
  define s1 where "s1 = real_newline opts (flush_check 1 (fetch_line opts 1 l1 s0))"
  define s2 where "s2 = real_newline opts (flush_check 1 s1)"
  define s3 where "s3 = real_newline opts (flush_check 1 (fetch_line opts 1 l3 s2))"
  define s4 where "s4 = real_newline opts (flush_check 1 s3)"
  define s5 where "s5 = real_newline opts (flush_check 1 (fetch_line opts 1 l5 s4))"
  have 0: "stream s0 = []" "counter s0 = initial_counter" "0 \<le> newlines s0"
    by (simp_all add: s0_def initial_globals_def)
  have 1: "stream s1 = number_field 0x31 @ render_line opts l1 @ line_end opts"
    "counter s1 = next_line_num initial_counter" "newlines s1 = 0"
    using nonblank_line[OF assms(1,6,3) 0(3), of 1] 0(1,2) by (simp_all add: s1_def first_numbers)
  have 2: "stream s2 = stream s1 @ line_end opts"
    "counter s2 = next_line_num initial_counter" "0 \<le> newlines s2"
    using blank_after_nonblank[OF assms(2) 1(3), of 1] 1(2) by (simp_all add: s2_def)
  have 3: "stream s3 = stream s2 @ number_field 0x32 @ render_line opts l3 @ line_end opts"
    "counter s3 = next_line_num (next_line_num initial_counter)" "newlines s3 = 0"
    using nonblank_line[OF assms(1,7,4) 2(3), of 1] 2(2) by (simp_all add: s3_def first_numbers)
  have 4: "stream s4 = stream s3 @ line_end opts"
    "counter s4 = next_line_num (next_line_num initial_counter)" "0 \<le> newlines s4"
    using blank_after_nonblank[OF assms(2) 3(3), of 1] 3(2) by (simp_all add: s4_def)
  have 5: "stream s5 = stream s4 @ number_field 0x33 @ render_line opts l5 @ line_end opts"
    using nonblank_line[OF assms(1,8,5) 4(3), of 1] 4(2) by (simp_all add: s5_def first_numbers)
  have "scan opts initial_globals
            (l1 @ [0x0A] @ [0x0A] @ l3 @ [0x0A] @ [0x0A] @ l5 @ [0x0A]) = s5"
    by (simp add: scan_def fetch_line_after_line s0_def s1_def s2_def s3_def s4_def s5_def)
  then show ?thesis using 1(1) 2(1) 3(1) 4(1) 5 by simp
qed

lemma parse_options_number:
  assumes "parse_options flags opts = Some opts'" "number_nonblank opts \<longrightarrow> number opts"
  shows "number_nonblank opts' \<longrightarrow> number opts'"
  using assms
proof (induction flags arbitrary: opts)
  case Nil
  then show ?case by simp
next
  case (Cons c cs)
  then obtain o1 where o1: "decode_option c opts = Some o1" "parse_options cs o1 = Some opts'"
    by (auto split: option.splits)
  from o1(1) Cons.prems(2) have "number_nonblank o1 \<longrightarrow> number o1"
    by (auto simp add: decode_option_def split: if_splits)
  from Cons.IH[OF o1(2) this] show ?case .
qed

text \<open>
  C7. From the start of the process, with \<open>number\<close> set, as it is whenever the options
  parsed by \<^verbatim>\<open>main\<close> have \<open>number_nonblank\<close> set. When \<open>number_nonblank\<close> and
  \<open>squeeze_blank\<close> are unset, an input of five lines (each a list without newline,
  followed by its newline) is written with the line number fields of 1 to 5 in front of
  the five lines, in order. When \<open>number_nonblank\<close> is set and lines 2 and 4 are empty and
  lines 1, 3 and 5 are not, the fields of 1, 2 and 3 stand in front of lines 1, 3 and 5,
  and the empty lines are written with no number and are not counted. A number field is
  the number right justified in six columns and a tab; the bytes of a line are written
  as the other options render them.
\<close>

theorem numbering_five_lines:
  assumes "number opts" and "0 < outsize"
    and "list_all clean_read evs" and "boundaries_ok opts (map chunk_of evs)"
    and "0x0A \<notin> set l1" and "0x0A \<notin> set l2" and "0x0A \<notin> set l3"
    and "0x0A \<notin> set l4" and "0x0A \<notin> set l5"
  shows "(\<not> number_nonblank opts \<and> \<not> squeeze_blank opts
          \<and> input_of evs = l1 @ [0x0A] @ l2 @ [0x0A] @ l3 @ [0x0A] @ l4 @ [0x0A] @ l5 @ [0x0A]
          \<longrightarrow> output_of (cat insize outsize opts initial_globals evs)
              = Some (number_field 0x31 @ render_line opts l1 @ line_end opts
                      @ number_field 0x32 @ render_line opts l2 @ line_end opts
                      @ number_field 0x33 @ render_line opts l3 @ line_end opts
                      @ number_field 0x34 @ render_line opts l4 @ line_end opts
                      @ number_field 0x35 @ render_line opts l5 @ line_end opts))
       \<and> (number_nonblank opts \<and> l1 \<noteq> [] \<and> l3 \<noteq> [] \<and> l5 \<noteq> []
          \<and> input_of evs = l1 @ [0x0A] @ [0x0A] @ l3 @ [0x0A] @ [0x0A] @ l5 @ [0x0A]
          \<longrightarrow> output_of (cat insize outsize opts initial_globals evs)
              = Some (number_field 0x31 @ render_line opts l1 @ line_end opts
                      @ line_end opts
                      @ number_field 0x32 @ render_line opts l3 @ line_end opts
                      @ line_end opts
                      @ number_field 0x33 @ render_line opts l5 @ line_end opts))
       \<and> (\<forall>flags opts'. parse_options flags no_options = Some opts' \<and> number_nonblank opts'
             \<longrightarrow> number opts')"
proof -
  have p: "number opts'"
    if "parse_options flags no_options = Some opts' \<and> number_nonblank opts'" for flags opts'
    using parse_options_number[of flags no_options opts'] that by (simp add: no_options_def)
  from cat_scan[OF assms(2,3,4), of insize initial_globals]
  have out: "output_of (cat insize outsize opts initial_globals evs)
      = Some (stream (scan opts initial_globals (input_of evs)))"
    by (auto simp add: output_of_def)
  have "\<forall>flags opts'. parse_options flags no_options = Some opts' \<and> number_nonblank opts'
             \<longrightarrow> number opts'"
    using p by blast
  then show ?thesis
    unfolding out
    using scan_five_numbered[OF assms(1) _ _ assms(5,6,7,8,9)]
      scan_nonblank_numbered[OF assms(1) _ assms(5,7,9)]
    by simp
qed

theorem numbering_five_lines_witness:
  "list_all clean_read [(Bytes_ready 4, Data [0x61, 0x0A, 0x0A]), (Bytes_ready 0, Data [0x62, 0x0A, 0x0A, 0x63, 0x0A])]
   \<and> input_of [(Bytes_ready 4, Data [0x61, 0x0A, 0x0A]), (Bytes_ready 0, Data [0x62, 0x0A, 0x0A, 0x63, 0x0A])]
       = [0x61] @ [0x0A] @ [] @ [0x0A] @ [0x62] @ [0x0A] @ [] @ [0x0A] @ [0x63] @ [0x0A]
   \<and> output_of (cat 8 8 (no_options\<lparr>number := True\<rparr>) initial_globals
         [(Bytes_ready 4, Data [0x61, 0x0A, 0x0A]), (Bytes_ready 0, Data [0x62, 0x0A, 0x0A, 0x63, 0x0A])])
       = Some ([0x20, 0x20, 0x20, 0x20, 0x20, 0x31, 0x09, 0x61, 0x0A]
               @ [0x20, 0x20, 0x20, 0x20, 0x20, 0x32, 0x09, 0x0A]
               @ [0x20, 0x20, 0x20, 0x20, 0x20, 0x33, 0x09, 0x62, 0x0A]
               @ [0x20, 0x20, 0x20, 0x20, 0x20, 0x34, 0x09, 0x0A]
               @ [0x20, 0x20, 0x20, 0x20, 0x20, 0x35, 0x09, 0x63, 0x0A])
   \<and> output_of (cat 8 8 (no_options\<lparr>number := True, number_nonblank := True\<rparr>) initial_globals
         [(Bytes_ready 4, Data [0x61, 0x0A, 0x0A]), (Bytes_ready 0, Data [0x62, 0x0A, 0x0A, 0x63, 0x0A])])
       = Some ([0x20, 0x20, 0x20, 0x20, 0x20, 0x31, 0x09, 0x61, 0x0A]
               @ [0x0A]
               @ [0x20, 0x20, 0x20, 0x20, 0x20, 0x32, 0x09, 0x62, 0x0A]
               @ [0x0A]
               @ [0x20, 0x20, 0x20, 0x20, 0x20, 0x33, 0x09, 0x63, 0x0A])
   \<and> parse_options ''b'' no_options = Some (no_options\<lparr>number := True, number_nonblank := True\<rparr>)
   \<and> number (no_options\<lparr>number := True, number_nonblank := True\<rparr>)"
proof -
  let ?evs = "[(Bytes_ready 4, Data [0x61, 0x0A, 0x0A :: byte]), (Bytes_ready 0, Data [0x62, 0x0A, 0x0A, 0x63, 0x0A])]"
  let ?a = "no_options\<lparr>number := True\<rparr>"
  let ?b = "no_options\<lparr>number := True, number_nonblank := True\<rparr>"
  have c: "list_all clean_read ?evs" by (simp add: clean_read_def)
  have i: "input_of ?evs = [0x61] @ [0x0A] @ [] @ [0x0A] @ [0x62] @ [0x0A] @ [] @ [0x0A] @ [0x63] @ [0x0A]"
    by (simp add: input_of_def)
  have na: "number ?a" "\<not> number_nonblank ?a \<and> \<not> squeeze_blank ?a" and nb: "number ?b" "number_nonblank ?b"
    by (simp_all add: no_options_def)
  have ba: "boundaries_ok ?a (map chunk_of ?evs)" and bb: "boundaries_ok ?b (map chunk_of ?evs)"
    by (simp_all add: splits_cr_def no_options_def)
  have p: "0 < (8::nat)" by simp
  have l: "0x0A \<notin> set [0x61 :: byte]" "0x0A \<notin> set ([] :: byte list)" "0x0A \<notin> set [0x62 :: byte]"
    "0x0A \<notin> set [0x63 :: byte]" by simp_all
  have ra: "render_line ?a [0x61] = [0x61]" "render_line ?a [0x62] = [0x62]" "render_line ?a [0x63] = [0x63]"
    "render_line ?b [0x61] = [0x61]" "render_line ?b [0x62] = [0x62]" "render_line ?b [0x63] = [0x63]"
    "line_end ?a = [0x0A]" "line_end ?b = [0x0A]"
    by code_simp+
  have A: "output_of (cat 8 8 ?a initial_globals ?evs)
       = Some ([0x20, 0x20, 0x20, 0x20, 0x20, 0x31, 0x09, 0x61, 0x0A]
               @ [0x20, 0x20, 0x20, 0x20, 0x20, 0x32, 0x09, 0x0A]
               @ [0x20, 0x20, 0x20, 0x20, 0x20, 0x33, 0x09, 0x62, 0x0A]
               @ [0x20, 0x20, 0x20, 0x20, 0x20, 0x34, 0x09, 0x0A]
               @ [0x20, 0x20, 0x20, 0x20, 0x20, 0x35, 0x09, 0x63, 0x0A])"
    using numbering_five_lines[OF na(1) p c ba l(1) l(2) l(3) l(2) l(4), of 8, THEN conjunct1] na(2) i ra
    by (simp add: number_field_def)
  have B: "output_of (cat 8 8 ?b initial_globals ?evs)
       = Some ([0x20, 0x20, 0x20, 0x20, 0x20, 0x31, 0x09, 0x61, 0x0A]
               @ [0x0A]
               @ [0x20, 0x20, 0x20, 0x20, 0x20, 0x32, 0x09, 0x62, 0x0A]
               @ [0x0A]
               @ [0x20, 0x20, 0x20, 0x20, 0x20, 0x33, 0x09, 0x63, 0x0A])"
    using numbering_five_lines[OF nb(1) p c bb l(1) l(2) l(3) l(2) l(4), of 8, THEN conjunct2, THEN conjunct1] nb(2) i ra
    by (simp add: number_field_def)
  have P: "parse_options ''b'' no_options = Some ?b"
    by (simp add: decode_option_def)
  have N: "number ?b"
    using numbering_five_lines[OF nb(1) p c bb l(1) l(2) l(3) l(2) l(4), of 8,
        THEN conjunct2, THEN conjunct2] P nb(2)
    by blast
  from c i A B P N show ?thesis by blast
qed


section \<open>Chunk boundaries and the size of the output buffer\<close>

text \<open>
  C2 fails on the code. With only \<open>show_ends\<close> set, the two bytes \<^verbatim>\<open>0D 58\<close> read as one
  chunk are written as they are; read as two chunks of one byte, the carriage return is
  the last byte of its chunk, the byte after it in the buffer is the sentinel newline,
  and it is written as \<^verbatim>\<open>^M\<close>.
\<close>

theorem chunked_cr_failing_input:
  "output_of (cat 8 8 (no_options\<lparr>show_ends := True\<rparr>) initial_globals
      [(Bytes_ready 0, Data [0x0D, 0x58])]) = Some [0x0D, 0x58]
   \<and> output_of (cat 8 8 (no_options\<lparr>show_ends := True\<rparr>) initial_globals
      [(Bytes_ready 1, Data [0x0D]), (Bytes_ready 0, Data [0x58])]) = Some [0x5E, 0x4D, 0x58]"
  by code_simp

text \<open>
  Apart from that case the chunking is invisible: reads that deliver the input in
  chunks none of which ends with a carriage return cut from a following byte other than
  newline give the output, and leave the globals, of the one read that delivers it whole.
\<close>

theorem chunking_invisible:
  assumes "0 < outsize" and "0 < outsize1" and "io \<noteq> Ioctl_error"
    and "list_all clean_read evs" and "boundaries_ok opts (map chunk_of evs)"
    and "input_of evs \<noteq> []"
  shows "output_of (cat insize outsize opts g evs)
           = output_of (cat insize1 outsize1 opts g [(io, Data (input_of evs))])
       \<and> map_option globals_after (cat insize outsize opts g evs)
           = map_option globals_after (cat insize1 outsize1 opts g [(io, Data (input_of evs))])
       \<and> map_option ok (cat insize outsize opts g evs) = Some True"
proof -
  from cat_scan[OF assms(1,4,5), of insize g]
  obtain r where r: "cat insize outsize opts g evs = Some r" "ok r"
    "concat (writes r) = stream (scan opts g (input_of evs))"
    "globals_after r = globals_of (scan opts g (input_of evs))" by blast
  from cat_single_chunk[OF assms(2,3,6), of insize1 opts g]
  obtain r1 where r1: "cat insize1 outsize1 opts g [(io, Data (input_of evs))] = Some r1"
    "concat (writes r1) = stream (scan opts g (input_of evs))"
    "globals_after r1 = globals_of (scan opts g (input_of evs))" by blast
  from r r1 show ?thesis by (simp add: output_of_def)
qed

theorem chunking_invisible_witness:
  "list_all clean_read [(Bytes_ready 1, Data [0x61, 0x0D]), (Not_supported, Data [0x0A, 0x62])]
   \<and> boundaries_ok (no_options\<lparr>show_ends := True\<rparr>)
        (map chunk_of [(Bytes_ready 1, Data [0x61, 0x0D]), (Not_supported, Data [0x0A, 0x62])])
   \<and> output_of (cat 2 3 (no_options\<lparr>show_ends := True\<rparr>) initial_globals
        [(Bytes_ready 1, Data [0x61, 0x0D]), (Not_supported, Data [0x0A, 0x62])])
       = Some [0x61, 0x5E, 0x4D, 0x24, 0x0A, 0x62]
   \<and> output_of (cat 4 8 (no_options\<lparr>show_ends := True\<rparr>) initial_globals
        [(Bytes_ready 0, Data [0x61, 0x0D, 0x0A, 0x62])])
       = Some [0x61, 0x5E, 0x4D, 0x24, 0x0A, 0x62]"
proof -
  let ?opts = "no_options\<lparr>show_ends := True\<rparr>"
  let ?evs = "[(Bytes_ready 1, Data [0x61, 0x0D :: byte]), (Not_supported, Data [0x0A, 0x62])]"
  have h: "0 < (3::nat)" "0 < (8::nat)" "Bytes_ready 0 \<noteq> Ioctl_error"
    "list_all clean_read ?evs" "boundaries_ok ?opts (map chunk_of ?evs)" "input_of ?evs \<noteq> []"
    by (simp_all add: clean_read_def splits_cr_def input_of_def)
  have i: "input_of ?evs = [0x61, 0x0D, 0x0A, 0x62]" by (simp add: input_of_def)
  have e: "output_of (cat 4 8 ?opts initial_globals [(Bytes_ready 0, Data [0x61, 0x0D, 0x0A, 0x62])])
       = Some [0x61, 0x5E, 0x4D, 0x24, 0x0A, 0x62]"
    by code_simp
  from chunking_invisible[OF h, of 2 initial_globals 4] i e h(4,5) show ?thesis by simp
qed

text \<open>
  The bytes of a line are stored with no flush check in between. With this, the run
  below is followed for every input and output size \<open>N\<close> from 15 on.
\<close>

lemma put_put: "put a (put b s) = put (b @ a) s"
  by (simp add: put_def max.assoc[symmetric] max_def)

lemma chars_loop_exact:
  assumes "0x0A \<notin> set (ch # cs)"
  shows "chars_loop opts outsize ch cs s = (put (render_line opts (ch # cs)) s)\<lparr>newlines := - 1\<rparr>"
  using assms
proof (induction cs arbitrary: ch s)
  case Nil
  then show ?case by (simp add: store_char_def peek_def)
next
  case (Cons c cs)
  then have "chars_loop opts outsize c cs (store_char opts ch (c # cs) s)
      = (put (render_line opts (c # cs)) (store_char opts ch (c # cs) s))\<lparr>newlines := - 1\<rparr>"
    by simp
  then show ?case using Cons.prems
    by (simp add: store_char_def put_put)
qed

lemma render_line_meta:
  "show_nonprinting opts \<Longrightarrow>
     render_line opts (replicate k 0x80) = concat (replicate k [0x4D, 0x2D, 0x5E, 0x40])"
  by (induction k) (simp_all add: quote_char_def)

lemma render_line_plain_a:
  "show_nonprinting opts \<Longrightarrow> render_line opts (replicate k 0x61) = replicate k 0x61"
  by (induction k) (simp_all add: quote_char_def)

lemma length_concat_replicate: "length (concat (replicate k xs)) = k * length xs"
  by (induction k) simp_all

lemma flush_check_below: "length (outbuf s) < outsize \<Longrightarrow> flush_check outsize s = s"
  by (simp add: flush_check_def)

lemma peak_flush_check [simp]: "peak (flush_check outsize s) = peak s"
  by (simp add: flush_check_def split: prod.splits)

lemma peak_write_pending [simp]: "peak (write_pending s) = peak s"
  by (simp add: write_pending_def)

lemma rdigits_around_ten_digits:
  "rdigits 9999999997 = [0x37, 0x39, 0x39, 0x39, 0x39, 0x39, 0x39, 0x39, 0x39, 0x39]"
  "rdigits 9999999999 = [0x39, 0x39, 0x39, 0x39, 0x39, 0x39, 0x39, 0x39, 0x39, 0x39]"
  "rdigits 10000000000 = [0x30, 0x30, 0x30, 0x30, 0x30, 0x30, 0x30, 0x30, 0x30, 0x30, 0x31]"
  by (simp_all add: rdigits_big rdigits_small digit_def)

lemma line_num_strings:
  "line_num_string (counter_of 9999999998)
     = [0x39, 0x39, 0x39, 0x39, 0x39, 0x39, 0x39, 0x39, 0x39, 0x38, 0x09]"
  "line_num_string (counter_of 9999999999)
     = [0x39, 0x39, 0x39, 0x39, 0x39, 0x39, 0x39, 0x39, 0x39, 0x39, 0x09]"
  "line_num_string (counter_of 10000000000)
     = [0x31, 0x30, 0x30, 0x30, 0x30, 0x30, 0x30, 0x30, 0x30, 0x30, 0x30, 0x09]"
  by (simp_all add: counter_of_def rdigits_9999999998 rdigits_around_ten_digits
        line_num_string_def)

lemma next_counters:
  "next_line_num (counter_of 9999999997) = counter_of 9999999998"
  "next_line_num (counter_of 9999999998) = counter_of 9999999999"
  "next_line_num (counter_of 9999999999) = counter_of 10000000000"
  using next_line_num_counter_of[of 9999999997] next_line_num_counter_of[of 9999999998]
    next_line_num_counter_of[of 9999999999]
  by simp_all

lemma overrun_trace:
  assumes "15 \<le> N"
  shows "map_option outbuf_peak
           (cat N N vnE \<lparr>the_counter = counter_of 9999999997, newlines2 = 0\<rparr>
              [(Bytes_ready 1, Data (replicate (N - 14) 0x61 @ [0x0A])),
               (Bytes_ready 1, Data (0x0A # replicate (N - 1) 0x80))])
         = Some (5 * N + 20)"
proof -
  have v: "show_nonprinting vnE" "number vnE" "\<not> number_nonblank vnE" "show_ends vnE"
    "\<not> squeeze_blank vnE" by (simp_all add: vnE_def no_options_def)
  define s0 where "s0 = \<lparr>counter = counter_of 9999999997, newlines = 0, outbuf = [],
                           written = [], peak = 0\<rparr>"
  obtain m where m: "N - 14 = Suc m" using assms by (cases "N - 14") auto
  define s1 where "s1 = fetch_line vnE N (replicate (N - 14) 0x61 @ [0x0A]) s0"
  have a_free: "0x0A \<notin> set (0x61 # replicate m (0x61 :: byte))" by simp
  \<comment> \<open>the first chunk: the number, the letters, the end of the line\<close>
  define t1 where "t1 = put (render_line vnE (replicate (N - 14) 0x61)) (put_line_num s0)"
  have t1: "length (outbuf t1) = N - 3" "peak t1 \<le> N - 1" "written t1 = []"
    "counter t1 = counter_of 9999999998"
    using assms v
    by (simp_all add: t1_def s0_def put_def put_line_num_def Let_def next_counters
          line_num_strings render_line_plain_a)
  have "fetch_line vnE N (replicate (N - 14) 0x61) s0 = t1\<lparr>newlines := - 1\<rparr>"
    unfolding m using v chars_loop_exact[OF a_free, of vnE N "put_line_num s0"]
    by (simp add: s0_def t1_def m)
  then have s1_eq: "s1 = real_newline vnE (flush_check N (t1\<lparr>newlines := - 1\<rparr>))"
    by (simp add: s1_def fetch_line_after_line)
  have "flush_check N (t1\<lparr>newlines := - 1\<rparr>) = t1\<lparr>newlines := - 1\<rparr>"
    using t1(1) assms by (intro flush_check_below) simp
  then have s1: "length (outbuf s1) = N - 1" "peak s1 \<le> N - 1" "written s1 = []"
    "counter s1 = counter_of 9999999998" "newlines s1 = 0"
    using t1 v assms unfolding s1_eq
    by (simp_all add: real_newline_def Let_def put_def)
  \<comment> \<open>nothing is written before the second read\<close>
  have f1: "flush_check N s1 = s1" using s1(1) assms by (intro flush_check_below) simp
  \<comment> \<open>the second chunk: the numbered empty line, the number, the bytes\<close>
  define u where "u = real_newline vnE s1"
  have u: "length (outbuf u) = N + 12" "peak u \<le> N + 12" "counter u = counter_of 9999999999"
    "newlines u = 1"
    using s1 v assms
    by (simp_all add: u_def real_newline_def Let_def put_def put_line_num_def next_counters
          line_num_strings)
  obtain k where k: "N - 1 = Suc k" using assms by (cases "N - 1") auto
  have m_free: "0x0A \<notin> set (0x80 # replicate k (0x80 :: byte))" by simp
  define s2 where "s2 = fetch_line vnE N (0x0A # replicate (N - 1) 0x80) s1"
  have "s2 = (put (render_line vnE (replicate (N - 1) 0x80)) (put_line_num u))\<lparr>newlines := - 1\<rparr>"
    unfolding s2_def k using v u(4) f1 chars_loop_exact[OF m_free, of vnE N "put_line_num u"]
    by (simp add: u_def k)
  then have s2: "peak s2 = 5 * N + 20"
    using u v assms
    by (simp add: put_def put_line_num_def Let_def next_counters line_num_strings
          render_line_meta length_concat_replicate)
  have f0: "flush_check N s0 = s0" using assms by (intro flush_check_below) (simp add: s0_def)
  have "cat_loop vnE N True
              [(Bytes_ready 1, Data (replicate (N - 14) 0x61 @ [0x0A])),
               (Bytes_ready 1, Data (0x0A # replicate (N - 1) 0x80))] s0
      = (True, write_pending (write_pending (flush_check N
           (fetch_line vnE N (0x0A # replicate (N - 1) 0x80)
              (flush_check N (fetch_line vnE N (replicate (N - 14) 0x61 @ [0x0A])
                 (flush_check N s0)))))))"
    by (simp add: Let_def)
  also have "\<dots> = (True, write_pending (write_pending (flush_check N s2)))"
    unfolding f0 s1_def[symmetric] f1 s2_def[symmetric] ..
  finally have "cat_loop vnE N True
              [(Bytes_ready 1, Data (replicate (N - 14) 0x61 @ [0x0A])),
               (Bytes_ready 1, Data (0x0A # replicate (N - 1) 0x80))] s0
      = (True, write_pending (write_pending (flush_check N s2)))" .
  then show ?thesis using s2 assms by (simp add: cat_def s0_def[symmetric])
qed

text \<open>
  C3 fails on the code. The options are those of \<^verbatim>\<open>cat -vnE\<close>, the input and output
  sizes are both 131072, and 9999999997 lines have been numbered before. A first read
  returns 131058 letters and a newline, a second one a newline and 131071 bytes 0x80, and
  input is pending before both. After the first chunk 131071 bytes are in the buffer, one
  fewer than the flush check writes. The second chunk stores the number of the empty line
  and its tab (11 bytes), \<^verbatim>\<open>$\<close> and the newline, the number of the next line and its tab
  (12 bytes) and four bytes for each of the 131071 bytes, with no flush in between:
  655380 bytes are stored into, and the buffer \<^verbatim>\<open>main\<close> allocates for these sizes has
  655379 (before the alignment slack). The same happens at the sizes 2 and 1, where the
  run can be followed by hand: the chunk \<^verbatim>\<open>0A 80\<close> stores 29 bytes into a buffer of 28.
\<close>

theorem outbuf_overrun_failing_input:
  "map_option outbuf_peak
     (cat 131072 131072 vnE
        \<lparr>the_counter = (next_line_num ^^ 9999999997) initial_counter, newlines2 = 0\<rparr>
        [(Bytes_ready 1, Data (replicate 131058 0x61 @ [0x0A])),
         (Bytes_ready 1, Data (0x0A # replicate 131071 0x80))]) = Some 655380
   \<and> outbuf_size 131072 131072 = 655379
   \<and> map_option outbuf_peak
        (cat 2 1 vnE
           \<lparr>the_counter = (next_line_num ^^ 9999999998) initial_counter, newlines2 = 0\<rparr>
           [(Bytes_ready 0, Data [0x0A, 0x80])]) = Some 29
   \<and> outbuf_size 2 1 = 28"
proof -
  have a: "(131072 :: nat) - 14 = 131058" "(131072 :: nat) - 1 = 131071"
    "5 * (131072 :: nat) + 20 = 655380" by simp_all
  have c7: "(next_line_num ^^ 9999999997) initial_counter = counter_of 9999999997"
    by (rule counter_counts_in_decimal) simp
  have c8: "(next_line_num ^^ 9999999998) initial_counter = counter_9999999998"
    using counter_counts_in_decimal[of 9999999998]
    by (simp only: counter_of_9999999998) simp
  have h: "15 \<le> (131072 :: nat)" by simp
  have 1: "map_option outbuf_peak
     (cat 131072 131072 vnE
        \<lparr>the_counter = (next_line_num ^^ 9999999997) initial_counter, newlines2 = 0\<rparr>
        [(Bytes_ready 1, Data (replicate 131058 0x61 @ [0x0A])),
         (Bytes_ready 1, Data (0x0A # replicate 131071 0x80))]) = Some 655380"
    using overrun_trace[OF h] unfolding a c7 .
  have 2: "outbuf_size 131072 131072 = 655379" "outbuf_size 2 1 = 28"
    by (simp_all add: outbuf_size_def LINE_COUNTER_BUF_LEN_def)
  have 3: "map_option outbuf_peak
        (cat 2 1 vnE \<lparr>the_counter = counter_9999999998, newlines2 = 0\<rparr>
           [(Bytes_ready 0, Data [0x0A, 0x80])]) = Some 29"
    by code_simp
  from 1 2 3 show ?thesis unfolding c8 by (intro conjI)
qed


section \<open>The flush check\<close>

lemma write_blocks_whole:
  assumes "0 < outsize" "outsize \<le> length buf" "write_blocks outsize buf w = (remaining, w')"
  shows "\<exists>blocks. w' = w @ blocks \<and> blocks \<noteq> [] \<and> list_all (\<lambda>b. length b = outsize) blocks
           \<and> concat blocks @ remaining = buf \<and> length remaining < outsize"
  using assms
proof (induction outsize buf w arbitrary: remaining w' rule: write_blocks.induct)
  case (1 outsize buf w)
  have t: "length (take outsize buf) = outsize" using "1.prems"(2) by simp
  show ?case
  proof (cases "0 < outsize \<and> outsize \<le> length (drop outsize buf)")
    case True
    with "1.prems" have "write_blocks outsize (drop outsize buf) (w @ [take outsize buf]) = (remaining, w')"
      by (simp add: write_blocks.simps[of outsize buf])
    from "1.IH"[OF True "1.prems"(1) _ this] True
    obtain blocks where b: "w' = (w @ [take outsize buf]) @ blocks"
      "list_all (\<lambda>b. length b = outsize) blocks"
      "concat blocks @ remaining = drop outsize buf" "length remaining < outsize"
      by auto
    have "w' = w @ (take outsize buf # blocks)" using b(1) by simp
    moreover have "list_all (\<lambda>b. length b = outsize) (take outsize buf # blocks)"
      using b(2) t by simp
    moreover have "concat (take outsize buf # blocks) @ remaining = buf"
      using b(3) by simp
    ultimately show ?thesis using b(4) by blast
  next
    case False
    with "1.prems" have r: "remaining = drop outsize buf" "w' = w @ [take outsize buf]"
      by (simp_all add: write_blocks.simps[of outsize buf])
    have "length remaining < outsize" using False "1.prems"(1) r(1) by simp
    moreover have "list_all (\<lambda>b. length b = outsize) [take outsize buf]" using t by simp
    moreover have "concat [take outsize buf] @ remaining = buf" using r(1) by simp
    ultimately show ?thesis using r(2) by blast
  qed
qed

text \<open>
  The flush check. Below \<open>outsize\<close> bytes nothing happens. From \<open>outsize\<close> bytes on, one or
  more blocks of exactly \<open>outsize\<close> bytes are written, in the order of the buffer, and the
  bytes that remain, fewer than \<open>outsize\<close>, are what the buffer holds afterwards.
\<close>

theorem flush_check_whole_blocks:
  assumes "0 < outsize"
  shows "(length (outbuf s) < outsize \<longrightarrow> flush_check outsize s = s)
       \<and> (outsize \<le> length (outbuf s) \<longrightarrow>
            (\<exists>blocks. written (flush_check outsize s) = written s @ blocks \<and> blocks \<noteq> []
               \<and> list_all (\<lambda>b. length b = outsize) blocks
               \<and> concat blocks @ outbuf (flush_check outsize s) = outbuf s
               \<and> length (outbuf (flush_check outsize s)) < outsize))"
proof -
  have "flush_check outsize s = s" if "length (outbuf s) < outsize"
    using that by (simp add: flush_check_def)
  moreover have "\<exists>blocks. written (flush_check outsize s) = written s @ blocks \<and> blocks \<noteq> []
               \<and> list_all (\<lambda>b. length b = outsize) blocks
               \<and> concat blocks @ outbuf (flush_check outsize s) = outbuf s
               \<and> length (outbuf (flush_check outsize s)) < outsize"
    if le: "outsize \<le> length (outbuf s)"
  proof -
    obtain remaining w' where wb: "write_blocks outsize (outbuf s) (written s) = (remaining, w')"
      by (cases "write_blocks outsize (outbuf s) (written s)")
    from write_blocks_whole[OF assms le wb] show ?thesis
      using le wb by (simp add: flush_check_def)
  qed
  ultimately show ?thesis by blast
qed

theorem flush_check_whole_blocks_witness:
  "0 < (3 :: nat)
   \<and> 3 \<le> length (outbuf \<lparr>counter = initial_counter, newlines = 0,
                       outbuf = [1, 2, 3, 4, 5, 6, 7, 8], written = [[0]], peak = 8\<rparr>)
   \<and> flush_check 3 \<lparr>counter = initial_counter, newlines = 0,
                     outbuf = [1, 2, 3, 4, 5, 6, 7, 8], written = [[0]], peak = 8\<rparr>
       = \<lparr>counter = initial_counter, newlines = 0,
          outbuf = [7, 8], written = [[0], [1, 2, 3], [4, 5, 6]], peak = 8\<rparr>"
proof -
  let ?s = "\<lparr>counter = initial_counter, newlines = 0,
             outbuf = [1, 2, 3, 4, 5, 6, 7, 8 :: byte], written = [[0]], peak = 8\<rparr>"
  have h: "0 < (3 :: nat)" by simp
  have l: "3 \<le> length (outbuf ?s)" by simp
  from flush_check_whole_blocks[OF h, of ?s] l
  obtain blocks where "written (flush_check 3 ?s) = written ?s @ blocks" by blast
  moreover have "flush_check 3 ?s = \<lparr>counter = initial_counter, newlines = 0,
          outbuf = [7, 8], written = [[0], [1, 2, 3], [4, 5, 6]], peak = 8\<rparr>"
    by code_simp
  ultimately show ?thesis using h l by simp
qed


end
